theory Spec2Isabelle
  imports Main
begin

section \<open>Data model\<close>

text \<open>
  Bindings (class \<open>SignalBindingImpl\<close>) live in a store indexed by their address; a signal
  (class \<open>Signal\<close>, or its subclass \<open>AsyncSignal\<close>) is identified by a number. The links
  \<open>next\<close>/\<open>prev\<close> and the references \<open>_head\<close>/\<open>_tail\<close>/\<open>owner\<close> are optional addresses,
  \<open>None\<close> standing for \<open>null\<close>.
\<close>

type_synonym ref = nat
type_synonym sid = nat
type_synonym pid = nat

text \<open>Values passed to handlers; \<open>VResolve p\<close> is the \<open>resolve\<close> function of promise \<open>p\<close>.\<close>

datatype val = VNum int | VStr string | VNull | VResolve pid

text \<open>
  A handler is user code. Its body is a sequence of calls of the public interface of the
  library, of a call of its own first argument (the completion callback of an asynchronous
  signal), or a \<open>throw\<close>.
\<close>

datatype action =
    Add sid "action list" val
  | Once sid "action list" val
  | Detach sid ref
  | BindingDetach ref
  | DetachAll sid
  | SetEnabled sid bool
  | Dispatch sid "val list"
  | Has sid ref
  | HasAny sid
  | Handlers sid
  | CallResolve
  | Throw

record binding =
  fn :: "action list"
  once :: bool
  thisArg :: val
  nxt :: "ref option"
  prv :: "ref option"
  owner :: "sid option"

record signal =
  head :: "ref option"
  tail :: "ref option"
  enabled :: bool
  is_async :: bool

datatype pstate = Pending | Fulfilled | Rejected

text \<open>
  What an observer sees: every invocation of a handler (binding, \<open>this\<close> value, arguments),
  every result a handler obtains from \<open>has\<close>, \<open>hasAny\<close>, \<open>handlers\<close> and \<open>Binding.detach\<close>,
  and every settling of a promise.
\<close>

datatype event =
    Call ref val "val list"
  | SawHas sid ref bool
  | SawHasAny sid bool
  | SawHandlers sid "ref list"
  | SawDetach ref bool
  | Settled pid pstate

record world =
  heap :: "ref \<Rightarrow> binding"
  nalloc :: nat
  sigs :: "sid \<Rightarrow> signal"
  promises :: "pstate list"
  trace :: "event list"

datatype error = HandlerError | TypeError

datatype outcome = Returns world | Throws error world | Diverges

section \<open>Field updates\<close>

definition set_next :: "ref \<Rightarrow> ref option \<Rightarrow> world \<Rightarrow> world" where
  "set_next r v w = w\<lparr>heap := (heap w)(r := (heap w r)\<lparr>nxt := v\<rparr>)\<rparr>"

definition set_prev :: "ref \<Rightarrow> ref option \<Rightarrow> world \<Rightarrow> world" where
  "set_prev r v w = w\<lparr>heap := (heap w)(r := (heap w r)\<lparr>prv := v\<rparr>)\<rparr>"

definition set_owner :: "ref \<Rightarrow> sid option \<Rightarrow> world \<Rightarrow> world" where
  "set_owner r v w = w\<lparr>heap := (heap w)(r := (heap w r)\<lparr>owner := v\<rparr>)\<rparr>"

definition set_head :: "sid \<Rightarrow> ref option \<Rightarrow> world \<Rightarrow> world" where
  "set_head s v w = w\<lparr>sigs := (sigs w)(s := (sigs w s)\<lparr>head := v\<rparr>)\<rparr>"

definition set_tail :: "sid \<Rightarrow> ref option \<Rightarrow> world \<Rightarrow> world" where
  "set_tail s v w = w\<lparr>sigs := (sigs w)(s := (sigs w s)\<lparr>tail := v\<rparr>)\<rparr>"

definition set_enabled :: "sid \<Rightarrow> bool \<Rightarrow> world \<Rightarrow> world" where
  "set_enabled s v w = w\<lparr>sigs := (sigs w)(s := (sigs w s)\<lparr>enabled := v\<rparr>)\<rparr>"

definition emit :: "event \<Rightarrow> world \<Rightarrow> world" where
  "emit e w = w\<lparr>trace := trace w @ [e]\<rparr>"

section \<open>Signal: the operations without callbacks\<close>

text \<open>The constructor of \<open>SignalBindingImpl\<close>: links and owner start as \<open>null\<close>.\<close>

definition new_binding :: "action list \<Rightarrow> bool \<Rightarrow> val \<Rightarrow> binding" where
  "new_binding f o1 t =
     \<lparr>fn = f, once = o1, thisArg = t, nxt = None, prv = None, owner = None\<rparr>"

definition alloc :: "binding \<Rightarrow> world \<Rightarrow> ref \<times> world" where
  "alloc b w = (nalloc w, w\<lparr>heap := (heap w)(nalloc w := b), nalloc := Suc (nalloc w)\<rparr>)"

text \<open>\<open>Signal._addSignalBinding\<close>\<close>

definition addSignalBinding :: "sid \<Rightarrow> ref \<Rightarrow> world \<Rightarrow> world" where
  "addSignalBinding s node w =
     (let w1 =
        (case head (sigs w s) of
           None \<Rightarrow> set_tail s (Some node) (set_head s (Some node) w)
         | Some _ \<Rightarrow>
             (let wa = (case tail (sigs w s) of
                          Some t \<Rightarrow> set_next t (Some node) w
                        | None \<Rightarrow> w);
                  wb = set_prev node (tail (sigs wa s)) wa
              in set_tail s (Some node) wb))
      in set_owner node (Some s) w1)"

text \<open>\<open>Signal.add\<close> and \<open>Signal.once\<close> (\<open>AsyncSignal.add\<close> has the body of \<open>Signal.add\<close>).\<close>

definition add :: "sid \<Rightarrow> action list \<Rightarrow> val \<Rightarrow> world \<Rightarrow> ref \<times> world" where
  "add s f t w = (case alloc (new_binding f False t) w of
                    (node, w1) \<Rightarrow> (node, addSignalBinding s node w1))"

definition once_add :: "sid \<Rightarrow> action list \<Rightarrow> val \<Rightarrow> world \<Rightarrow> ref \<times> world" where
  "once_add s f t w = (case alloc (new_binding f True t) w of
                         (node, w1) \<Rightarrow> (node, addSignalBinding s node w1))"

text \<open>\<open>Signal.hasAny\<close> and \<open>Signal.has\<close>\<close>

definition hasAny :: "sid \<Rightarrow> world \<Rightarrow> bool" where
  "hasAny s w = (head (sigs w s) \<noteq> None)"

definition has :: "sid \<Rightarrow> ref \<Rightarrow> world \<Rightarrow> bool" where
  "has s node w = (owner (heap w node) = Some s)"

text \<open>\<open>Signal.handlers\<close>: the loop runs as long as \<open>node\<close> is not \<open>null\<close>.\<close>

partial_function (option) handlers_loop :: "world \<Rightarrow> ref option \<Rightarrow> ref list \<Rightarrow> ref list option"
where
  "handlers_loop w node acc =
     (case node of
        None \<Rightarrow> Some acc
      | Some r \<Rightarrow> handlers_loop w (nxt (heap w r)) (acc @ [r]))"

definition handlers :: "sid \<Rightarrow> world \<Rightarrow> ref list option" where
  "handlers s w = handlers_loop w (head (sigs w s)) []"

text \<open>\<open>Signal.detach\<close>\<close>

definition detach :: "sid \<Rightarrow> ref \<Rightarrow> world \<Rightarrow> world" where
  "detach s node w =
     (if owner (heap w node) \<noteq> Some s then w
      else
        let w1 = (case prv (heap w node) of
                    Some p \<Rightarrow> set_next p (nxt (heap w node)) w
                  | None \<Rightarrow> w);
            w2 = (case nxt (heap w1 node) of
                    Some n \<Rightarrow> set_prev n (prv (heap w1 node)) w1
                  | None \<Rightarrow> w1);
            w3 = (if Some node = head (sigs w2 s) then
                    (let wa = set_head s (nxt (heap w2 node)) w2
                     in if nxt (heap wa node) = None then set_tail s None wa else wa)
                  else if Some node = tail (sigs w2 s) then
                    (let wa = set_tail s (prv (heap w2 node)) w2
                     in case tail (sigs wa s) of
                          Some t \<Rightarrow> set_next t None wa
                        | None \<Rightarrow> wa)
                  else w2)
        in set_owner node None w3)"

text \<open>\<open>SignalBindingImpl.detach\<close>\<close>

definition binding_detach :: "ref \<Rightarrow> world \<Rightarrow> bool \<times> world" where
  "binding_detach node w =
     (case owner (heap w node) of
        None \<Rightarrow> (False, w)
      | Some s \<Rightarrow> (True, detach s node w))"

text \<open>\<open>Signal.detachAll\<close>\<close>

partial_function (option) detachAll_loop :: "ref option \<Rightarrow> world \<Rightarrow> world option" where
  "detachAll_loop node w =
     (case node of
        None \<Rightarrow> Some w
      | Some r \<Rightarrow> detachAll_loop (nxt (heap (set_owner r None w) r)) (set_owner r None w))"

definition detachAll :: "sid \<Rightarrow> world \<Rightarrow> world option" where
  "detachAll s w =
     (case head (sigs w s) of
        None \<Rightarrow> Some w
      | Some node \<Rightarrow> detachAll_loop (Some node) (set_tail s None (set_head s None w)))"

section \<open>Promises\<close>

text \<open>
  The promise of the JavaScript runtime: it is settled by the first call of \<open>resolve\<close>, or by
  an exception of its executor, and a settled promise ignores both.
\<close>

definition new_promise :: "world \<Rightarrow> pid \<times> world" where
  "new_promise w = (length (promises w), w\<lparr>promises := promises w @ [Pending]\<rparr>)"

definition settle :: "pid \<Rightarrow> pstate \<Rightarrow> world \<Rightarrow> world" where
  "settle p st w =
     (if p < length (promises w) \<and> promises w ! p = Pending
      then emit (Settled p st) (w\<lparr>promises := (promises w)[p := st]\<rparr>)
      else w)"

section \<open>Dispatch\<close>

text \<open>
  The \<open>switch\<close> of \<open>Signal.dispatch\<close> on \<open>arguments.length\<close>: the arguments the handler is
  called with.
\<close>

definition forward :: "val list \<Rightarrow> val list" where
  "forward args =
     (let len = length args in
      if len = 0 then []
      else if len = 1 then [args ! 0]
      else if len = 2 then [args ! 0, args ! 1]
      else if len = 3 then [args ! 0, args ! 1, args ! 2]
      else if len = 4 then [args ! 0, args ! 1, args ! 2, args ! 3]
      else if len = 5 then [args ! 0, args ! 1, args ! 2, args ! 3, args ! 4]
      else args)"

text \<open>
  Handlers call back into the library, and a handler may add a handler to the list being
  walked, so a dispatch need not return. The loop of \<open>Signal.dispatch\<close> and the run of a
  handler body take a bound on the number of steps (bindings visited and actions run);
  \<open>Diverges\<close> is the answer when the bound is reached, and when \<open>handlers\<close> or
  \<open>detachAll\<close> does not return.

  \<open>Signal_dispatch\<close> is \<open>Signal.dispatch\<close> and \<open>AsyncSignal_dispatch\<close> is
  \<open>AsyncSignal.dispatch\<close> up to its \<open>await\<close>; the promise it awaits is the one it appends
  to \<open>promises\<close>. An exception of the executor of a promise rejects it. Both take the
  \<open>while (node)\<close> loop as their first argument. \<open>call_dispatch\<close> is the method call
  \<open>signal.dispatch(...)\<close>, which the class of the signal resolves.
\<close>

type_synonym loop = "sid \<Rightarrow> val list \<Rightarrow> ref option \<Rightarrow> world \<Rightarrow> outcome"

definition Signal_dispatch :: "loop \<Rightarrow> sid \<Rightarrow> val list \<Rightarrow> world \<Rightarrow> outcome" where
  "Signal_dispatch lp s args w =
     (if \<not> enabled (sigs w s) then Returns w
      else case head (sigs w s) of
             None \<Rightarrow> Returns w
           | Some node \<Rightarrow> lp s args (Some node) w)"

definition AsyncSignal_dispatch :: "loop \<Rightarrow> sid \<Rightarrow> val list \<Rightarrow> world \<Rightarrow> outcome" where
  "AsyncSignal_dispatch lp s args w =
     (case new_promise w of
        (p, w1) \<Rightarrow>
          if \<not> enabled (sigs w1 s) then Returns (settle p Fulfilled w1)
          else (case Signal_dispatch lp s (VResolve p # args) w1 of
                  Returns w2 \<Rightarrow> Returns w2
                | Throws e w2 \<Rightarrow> Returns (settle p Rejected w2)
                | Diverges \<Rightarrow> Diverges))"

definition call_dispatch :: "loop \<Rightarrow> sid \<Rightarrow> val list \<Rightarrow> world \<Rightarrow> outcome" where
  "call_dispatch lp s args w =
     (if is_async (sigs w s) then AsyncSignal_dispatch lp s args w
      else Signal_dispatch lp s args w)"

text \<open>One statement of a handler that was called with the arguments \<open>args\<close>.\<close>

fun do_action :: "loop \<Rightarrow> val list \<Rightarrow> action \<Rightarrow> world \<Rightarrow> outcome" where
  "do_action lp args (Add s f t) w = Returns (snd (add s f t w))"
| "do_action lp args (Once s f t) w = Returns (snd (once_add s f t w))"
| "do_action lp args (Detach s r) w =
     (if r < nalloc w then Returns (detach s r w) else Throws TypeError w)"
| "do_action lp args (BindingDetach r) w =
     (if r < nalloc w
      then (case binding_detach r w of (b, w1) \<Rightarrow> Returns (emit (SawDetach r b) w1))
      else Throws TypeError w)"
| "do_action lp args (DetachAll s) w =
     (case detachAll s w of None \<Rightarrow> Diverges | Some w1 \<Rightarrow> Returns w1)"
| "do_action lp args (SetEnabled s b) w = Returns (set_enabled s b w)"
| "do_action lp args (Dispatch s dargs) w = call_dispatch lp s dargs w"
| "do_action lp args (Has s r) w =
     (if r < nalloc w then Returns (emit (SawHas s r (has s r w)) w)
      else Throws TypeError w)"
| "do_action lp args (HasAny s) w = Returns (emit (SawHasAny s (hasAny s w)) w)"
| "do_action lp args (Handlers s) w =
     (case handlers s w of
        None \<Rightarrow> Diverges
      | Some hs \<Rightarrow> Returns (emit (SawHandlers s hs) w))"
| "do_action lp args CallResolve w =
     (case args of
        VResolve p # _ \<Rightarrow> Returns (settle p Fulfilled w)
      | _ \<Rightarrow> Throws TypeError w)"
| "do_action lp args Throw w = Throws HandlerError w"

text \<open>
  \<open>exec n args body w\<close> runs the body of a handler that was called with \<open>args\<close>;
  \<open>dispatch_loop n s args node w\<close> is the \<open>while (node)\<close> loop of \<open>Signal.dispatch\<close>.
\<close>

fun exec :: "nat \<Rightarrow> val list \<Rightarrow> action list \<Rightarrow> world \<Rightarrow> outcome"
and dispatch_loop :: "nat \<Rightarrow> sid \<Rightarrow> val list \<Rightarrow> ref option \<Rightarrow> world \<Rightarrow> outcome"
where
  "exec 0 args body w = Diverges"
| "exec (Suc n) args [] w = Returns w"
| "exec (Suc n) args (a # rest) w =
     (case do_action (dispatch_loop n) args a w of
        Returns w1 \<Rightarrow> exec n args rest w1
      | Throws e w1 \<Rightarrow> Throws e w1
      | Diverges \<Rightarrow> Diverges)"
| "dispatch_loop 0 s args node w = Diverges"
| "dispatch_loop (Suc n) s args None w = Returns w"
| "dispatch_loop (Suc n) s args (Some node) w =
     (let w1 = (if once (heap w node) then detach s node w else w);
          w2 = emit (Call node (thisArg (heap w1 node)) (forward args)) w1
      in case exec n (forward args) (fn (heap w2 node)) w2 of
           Returns w3 \<Rightarrow> dispatch_loop n s args (nxt (heap w3 node)) w3
         | Throws e w3 \<Rightarrow> Throws e w3
         | Diverges \<Rightarrow> Diverges)"

text \<open>The calls a program makes from outside any handler.\<close>

definition signal_dispatch :: "nat \<Rightarrow> sid \<Rightarrow> val list \<Rightarrow> world \<Rightarrow> outcome" where
  "signal_dispatch n s args w = Signal_dispatch (dispatch_loop n) s args w"

definition async_dispatch :: "nat \<Rightarrow> sid \<Rightarrow> val list \<Rightarrow> world \<Rightarrow> outcome" where
  "async_dispatch n s args w = AsyncSignal_dispatch (dispatch_loop n) s args w"

text \<open>
  A world before any binding was created: every signal is empty and enabled; the signals
  whose number is in \<open>asyncs\<close> are instances of \<open>AsyncSignal\<close>.
\<close>

definition init_world :: "(sid \<Rightarrow> bool) \<Rightarrow> world" where
  "init_world asyncs =
     \<lparr>heap = (\<lambda>_. new_binding [] False VNull), nalloc = 0,
      sigs = (\<lambda>s. \<lparr>head = None, tail = None, enabled = True, is_async = asyncs s\<rparr>),
      promises = [], trace = []\<rparr>"

text \<open>The handler invocations of a trace, in order, and the settlings of promise \<open>p\<close>.\<close>

fun is_call :: "event \<Rightarrow> bool" where
  "is_call (Call r t args) = True"
| "is_call _ = False"

definition calls :: "event list \<Rightarrow> event list" where
  "calls es = filter is_call es"

fun settles :: "pid \<Rightarrow> event \<Rightarrow> bool" where
  "settles p (Settled q st) = (q = p)"
| "settles p _ = False"

definition settlements :: "pid \<Rightarrow> event list \<Rightarrow> event list" where
  "settlements p es = filter (settles p) es"

text \<open>
  An observation that a handler made of signal \<open>s\<close> holding a binding: \<open>has\<close> or \<open>hasAny\<close>
  answered \<open>true\<close>, or \<open>Binding.detach\<close> answered \<open>true\<close>.
\<close>

fun sees_attached :: "sid \<Rightarrow> event \<Rightarrow> bool" where
  "sees_attached s (SawHas s' r b) = (s' = s \<and> b)"
| "sees_attached s (SawHasAny s' b) = (s' = s \<and> b)"
| "sees_attached s (SawDetach r b) = b"
| "sees_attached s _ = False"

section \<open>Handlers that leave the other bindings alone\<close>

text \<open>
  \<open>benign r args a\<close>: the statement \<open>a\<close>, in the handler of binding \<open>r\<close> called with
  \<open>args\<close>, is an observation of its own binding or of a signal, the detachment of its own
  binding, or a call of the completion callback that \<open>args\<close> starts with. Such a statement
  returns, with the effect \<open>benign_step\<close>.
\<close>

fun benign :: "ref \<Rightarrow> val list \<Rightarrow> action \<Rightarrow> bool" where
  "benign r args (Detach s x) = (x = r)"
| "benign r args (BindingDetach x) = (x = r)"
| "benign r args (Has s x) = (x = r)"
| "benign r args (HasAny s) = True"
| "benign r args CallResolve = (case args of VResolve p # _ \<Rightarrow> True | _ \<Rightarrow> False)"
| "benign r args _ = False"

fun benign_step :: "val list \<Rightarrow> action \<Rightarrow> world \<Rightarrow> world" where
  "benign_step args (Detach s x) w = detach s x w"
| "benign_step args (BindingDetach x) w =
     (case binding_detach x w of (b, w1) \<Rightarrow> emit (SawDetach x b) w1)"
| "benign_step args (Has s x) w = emit (SawHas s x (has s x w)) w"
| "benign_step args (HasAny s) w = emit (SawHasAny s (hasAny s w)) w"
| "benign_step args CallResolve w =
     (case args of VResolve p # _ \<Rightarrow> settle p Fulfilled w | _ \<Rightarrow> w)"
| "benign_step args _ w = w"

text \<open>\<open>detaches s r a\<close>: the statement \<open>a\<close> removes binding \<open>r\<close> from signal \<open>s\<close>.\<close>

fun detaches :: "sid \<Rightarrow> ref \<Rightarrow> action \<Rightarrow> bool" where
  "detaches s r (Detach s' x) = (s' = s \<and> x = r)"
| "detaches s r (BindingDetach x) = (x = r)"
| "detaches s r _ = False"

text \<open>
  \<open>stays w s r\<close>: binding \<open>r\<close> is not a once-binding and its handler does not detach it.
\<close>

definition stays :: "world \<Rightarrow> sid \<Rightarrow> ref \<Rightarrow> bool" where
  "stays w s r = (\<not> once (heap w r) \<and> \<not> list_ex (detaches s r) (fn (heap w r)))"

definition store :: "world \<Rightarrow> (ref \<Rightarrow> binding) \<times> (sid \<Rightarrow> signal) \<times> nat" where
  "store w = (heap w, sigs w, nalloc w)"

text \<open>The promises after \<open>resolve\<close> of promise \<open>p\<close> was called (if \<open>b\<close>), and the event of it.\<close>

definition settle_if :: "pid \<Rightarrow> bool \<Rightarrow> pstate list \<Rightarrow> pstate list" where
  "settle_if p b ps = (if b \<and> p < length ps \<and> ps ! p = Pending then ps[p := Fulfilled] else ps)"

definition settled_if :: "pid \<Rightarrow> bool \<Rightarrow> pstate list \<Rightarrow> event list" where
  "settled_if p b ps = (if b \<and> p < length ps \<and> ps ! p = Pending then [Settled p Fulfilled] else [])"

section \<open>The structural invariant\<close>

text \<open>
  \<open>seg h p q xs e\<close>: following \<open>next\<close> from the reference \<open>p\<close> visits exactly the
  bindings \<open>xs\<close> and then reaches \<open>e\<close>, and the \<open>prev\<close> links mirror the walk, the first
  binding having \<open>prev = q\<close>. \<open>attached w s xs\<close>: \<open>xs\<close> is the list of signal \<open>s\<close>, from
  \<open>_head\<close> to \<open>_tail\<close>, it has no repetition, and its bindings are exactly those whose
  owner is \<open>s\<close>. \<open>world_inv\<close>: every signal has such a list, and only allocated bindings
  have an owner.
\<close>

fun seg :: "(ref \<Rightarrow> binding) \<Rightarrow> ref option \<Rightarrow> ref option \<Rightarrow> ref list \<Rightarrow> ref option \<Rightarrow> bool" where
  "seg h p q [] e = (p = e)"
| "seg h p q (x # xs) e = (p = Some x \<and> prv (h x) = q \<and> seg h (nxt (h x)) (Some x) xs e)"

fun lastp :: "ref option \<Rightarrow> ref list \<Rightarrow> ref option" where
  "lastp q [] = q"
| "lastp q (x # xs) = lastp (Some x) xs"

definition hdp :: "ref list \<Rightarrow> ref option \<Rightarrow> ref option" where
  "hdp xs e = (case xs of [] \<Rightarrow> e | x # _ \<Rightarrow> Some x)"

definition attached :: "world \<Rightarrow> sid \<Rightarrow> ref list \<Rightarrow> bool" where
  "attached w s xs =
     (seg (heap w) (head (sigs w s)) None xs None
      \<and> tail (sigs w s) = lastp None xs
      \<and> distinct xs
      \<and> (\<forall>r. (r \<in> set xs) = (owner (heap w r) = Some s)))"

definition world_inv :: "world \<Rightarrow> bool" where
  "world_inv w =
     ((\<forall>s. \<exists>xs. attached w s xs) \<and> (\<forall>r. owner (heap w r) \<noteq> None \<longrightarrow> r < nalloc w))"


fun holds_after :: "(world \<Rightarrow> bool) \<Rightarrow> outcome \<Rightarrow> bool" where
  "holds_after P (Returns w) = P w"
| "holds_after P (Throws e w) = P w"
| "holds_after P Diverges = True"


text \<open>Worlds used as concrete inputs.\<close>

definition sync_world :: world where
  "sync_world = init_world (\<lambda>_. False)"

definition async_world :: world where
  "async_world = init_world (\<lambda>_. True)"

fun result :: "outcome \<Rightarrow> world option" where
  "result (Returns w) = Some w"
| "result (Throws e w) = None"
| "result Diverges = None"

definition two_handlers :: world where
  "two_handlers = snd (add 0 [] VNull (snd (add 0 [] VNull sync_world)))"

definition reentrant_once :: world where
  "reentrant_once = snd (once_add 0 [] VNull (snd (once_add 0 [Dispatch 0 []] VNull sync_world)))"


text \<open>
  \<open>enter s args x w\<close> is the world in which the handler of binding \<open>x\<close> starts when
  \<open>Signal.dispatch\<close> visits it: a once-binding was detached and the call is recorded.
  \<open>visit s args x w\<close> is the world after that handler, when its statements are benign.
\<close>

definition enter :: "sid \<Rightarrow> val list \<Rightarrow> ref \<Rightarrow> world \<Rightarrow> world" where
  "enter s args x w =
     (let w1 = (if once (heap w x) then detach s x w else w)
      in emit (Call x (thisArg (heap w1 x)) (forward args)) w1)"

definition visit :: "sid \<Rightarrow> val list \<Rightarrow> ref \<Rightarrow> world \<Rightarrow> world" where
  "visit s args x w =
     fold (benign_step (forward args)) (fn (heap (enter s args x w) x)) (enter s args x w)"

text \<open>\<open>called_back w xs\<close>: the handler of some binding of \<open>xs\<close> calls the completion callback.\<close>

definition called_back :: "world \<Rightarrow> ref list \<Rightarrow> bool" where
  "called_back w xs = list_ex (\<lambda>x. CallResolve \<in> set (fn (heap w x))) xs"

text \<open>\<open>same_code w w'\<close>: every binding has the same handler, once flag and \<open>this\<close> value.\<close>

definition same_code :: "world \<Rightarrow> world \<Rightarrow> bool" where
  "same_code w w' =
     (\<forall>y. fn (heap w' y) = fn (heap w y) \<and> once (heap w' y) = once (heap w y)
          \<and> thisArg (heap w' y) = thisArg (heap w y))"

text \<open>
  \<open>visited w args xs w'\<close>: from \<open>w\<close> to \<open>w'\<close> the handlers of \<open>xs\<close> were invoked in order
  with \<open>args\<close>, and nothing else; a promise whose \<open>resolve\<close> function is the first
  argument was settled by the first call of it.
\<close>

definition visited :: "world \<Rightarrow> val list \<Rightarrow> ref list \<Rightarrow> world \<Rightarrow> bool" where
  "visited w args xs w' =
     (\<exists>es. trace w' = trace w @ es
        \<and> calls es = map (\<lambda>x. Call x (thisArg (heap w x)) args) xs
        \<and> same_code w w'
        \<and> (\<forall>p ra. args = VResolve p # ra \<longrightarrow>
              promises w' = settle_if p (called_back w xs) (promises w)
            \<and> (\<forall>q. settlements q es =
                   (if q = p then settled_if p (called_back w xs) (promises w) else []))))"

text \<open>A number of steps that is enough to dispatch over the bindings \<open>xs\<close>.\<close>

definition fuel_for :: "world \<Rightarrow> ref list \<Rightarrow> nat" where
  "fuel_for w xs = length xs + sum_list (map (\<lambda>x. length (fn (heap w x))) xs) + 2"

text \<open>
  A sequence of \<open>add\<close> and \<open>once\<close> calls on signal \<open>s\<close>, each given by the once flag, the
  handler and the \<open>this\<close> value; the bindings returned, in order.
\<close>

fun add_all :: "sid \<Rightarrow> (bool \<times> action list \<times> val) list \<Rightarrow> world \<Rightarrow> ref list \<times> world" where
  "add_all s [] w = ([], w)"
| "add_all s ((o1, f, t) # specs) w =
     (case (if o1 then once_add s f t w else add s f t w) of
        (r, w1) \<Rightarrow> (case add_all s specs w1 of (rs, w2) \<Rightarrow> (r # rs, w2)))"

text \<open>The worlds built by such a sequence on signal 0, starting with no binding.\<close>

definition demo :: "(bool \<times> action list \<times> val) list \<Rightarrow> world" where
  "demo specs = snd (add_all 0 specs sync_world)"

definition demo_async :: "(bool \<times> action list \<times> val) list \<Rightarrow> world" where
  "demo_async specs = snd (add_all 0 specs async_world)"

definition three_specs :: "(bool \<times> action list \<times> val) list" where
  "three_specs = [(False, [], VNull), (True, [HasAny 0], VStr ''ctx''), (False, [BindingDetach 2], VNull)]"

definition self_detacher :: world where
  "self_detacher = demo [(False, [], VNull), (False, [BindingDetach 1], VNull), (False, [], VNull)]"

definition async_three :: world where
  "async_three = demo_async [(False, [], VNull), (False, [], VNull), (False, [CallResolve], VNull)]"

definition thrower :: world where
  "thrower = demo [(False, [], VNull), (False, [HasAny 0, Throw], VNull), (False, [Add 0 [] VNull], VNull)]"

definition sweeper :: world where
  "sweeper = demo [(False, [], VNull), (False, [DetachAll 0], VNull),
                   (False, [Has 0 2, HasAny 0], VNull), (False, [BindingDetach 3], VNull)]"

section \<open>Field updates and allocation\<close>

lemma heap_set [simp]:
  "heap (set_next r v w) = (heap w)(r := (heap w r)\<lparr>nxt := v\<rparr>)"
  "heap (set_prev r v w) = (heap w)(r := (heap w r)\<lparr>prv := v\<rparr>)"
  "heap (set_owner r u w) = (heap w)(r := (heap w r)\<lparr>owner := u\<rparr>)"
  "heap (set_head s v w) = heap w"
  "heap (set_tail s v w) = heap w"
  "heap (set_enabled s b w) = heap w"
  "heap (emit e w) = heap w"
  by (simp_all add: set_next_def set_prev_def set_owner_def set_head_def set_tail_def
      set_enabled_def emit_def)

lemma sigs_set [simp]:
  "sigs (set_next r v w) = sigs w"
  "sigs (set_prev r v w) = sigs w"
  "sigs (set_owner r u w) = sigs w"
  "sigs (set_head s v w) = (sigs w)(s := (sigs w s)\<lparr>head := v\<rparr>)"
  "sigs (set_tail s v w) = (sigs w)(s := (sigs w s)\<lparr>tail := v\<rparr>)"
  "sigs (set_enabled s b w) = (sigs w)(s := (sigs w s)\<lparr>enabled := b\<rparr>)"
  "sigs (emit e w) = sigs w"
  by (simp_all add: set_next_def set_prev_def set_owner_def set_head_def set_tail_def
      set_enabled_def emit_def)

lemma nalloc_set [simp]:
  "nalloc (set_next r v w) = nalloc w"
  "nalloc (set_prev r v w) = nalloc w"
  "nalloc (set_owner r u w) = nalloc w"
  "nalloc (set_head s v w) = nalloc w"
  "nalloc (set_tail s v w) = nalloc w"
  "nalloc (set_enabled s b w) = nalloc w"
  "nalloc (emit e w) = nalloc w"
  by (simp_all add: set_next_def set_prev_def set_owner_def set_head_def set_tail_def
      set_enabled_def emit_def)

lemma trace_set [simp]:
  "trace (set_next r v w) = trace w"
  "trace (set_prev r v w) = trace w"
  "trace (set_owner r u w) = trace w"
  "trace (set_head s v w) = trace w"
  "trace (set_tail s v w) = trace w"
  "trace (set_enabled s b w) = trace w"
  "trace (emit e w) = trace w @ [e]"
  by (simp_all add: set_next_def set_prev_def set_owner_def set_head_def set_tail_def
      set_enabled_def emit_def)

lemma promises_set [simp]:
  "promises (set_next r v w) = promises w"
  "promises (set_prev r v w) = promises w"
  "promises (set_owner r u w) = promises w"
  "promises (set_head s v w) = promises w"
  "promises (set_tail s v w) = promises w"
  "promises (set_enabled s b w) = promises w"
  "promises (emit e w) = promises w"
  by (simp_all add: set_next_def set_prev_def set_owner_def set_head_def set_tail_def
      set_enabled_def emit_def)

lemma detach_foreign: "owner (heap w r) \<noteq> Some s \<Longrightarrow> detach s r w = w"
  by (simp add: detach_def)

lemma detach_owner: "owner (heap w r) = Some s \<Longrightarrow> owner (heap (detach s r w) r) = None"
  by (simp add: detach_def Let_def)

section \<open>Lists in the store\<close>

lemma lastp_append [simp]: "lastp q (xs @ ys) = lastp (lastp q xs) ys"
  by (induction xs arbitrary: q) auto

lemma lastp_last: "lastp q xs = (if xs = [] then q else Some (last xs))"
  by (induction xs arbitrary: q) auto

lemma hdp_simps [simp]: "hdp [] e = e" "hdp (x # xs) e = Some x"
  by (simp_all add: hdp_def)

lemma seg_start: "seg h p q xs e \<Longrightarrow> p = hdp xs e"
  by (cases xs) auto

lemma seg_append:
  "seg h p q (xs @ ys) e = (seg h p q xs (hdp ys e) \<and> seg h (hdp ys e) (lastp q xs) ys e)"
proof (induction xs arbitrary: p q)
  case Nil
  show ?case using seg_start [of h p q ys e] by auto
next
  case (Cons x xs)
  show ?case by (auto simp: Cons.IH)
qed

lemma seg_cong:
  "\<forall>x\<in>set xs. nxt (h' x) = nxt (h x) \<and> prv (h' x) = prv (h x) \<Longrightarrow>
   seg h' p q xs e = seg h p q xs e"
  by (induction xs arbitrary: p q) auto

lemma seg_unique: "seg h p q xs None \<Longrightarrow> seg h p q ys None \<Longrightarrow> xs = ys"
proof (induction xs arbitrary: p q ys)
  case Nil
  then show ?case by (cases ys) auto
next
  case (Cons x xs)
  then show ?case by (cases ys) auto
qed

lemma attached_unique: "attached w s xs \<Longrightarrow> attached w s ys \<Longrightarrow> xs = ys"
  unfolding attached_def using seg_unique by blast

lemma seg_snoc:
  "seg h p q (xs @ [x]) e = (seg h p q xs (Some x) \<and> prv (h x) = lastp q xs \<and> nxt (h x) = e)"
  by (auto simp: seg_append)

lemma seg_mid:
  "seg h p q (ys @ r # zs) e =
     (seg h p q ys (Some r) \<and> prv (h r) = lastp q ys \<and> nxt (h r) = hdp zs e
      \<and> seg h (hdp zs e) (Some r) zs e)"
  using seg_start [of h "nxt (h r)" "Some r" zs e] by (auto simp: seg_append)

section \<open>Adding a binding\<close>

lemma attached_head: "attached w s xs \<Longrightarrow> head (sigs w s) = hdp xs None"
  unfolding attached_def using seg_start by blast

lemma attached_tail: "attached w s xs \<Longrightarrow> tail (sigs w s) = lastp None xs"
  by (simp add: attached_def)

lemma attached_owner: "attached w s xs \<Longrightarrow> (x \<in> set xs) = (owner (heap w x) = Some s)"
  by (auto simp: attached_def)

lemma attached_frame:
  assumes "attached w s xs"
    and "\<forall>x\<in>set xs. nxt (heap w' x) = nxt (heap w x) \<and> prv (heap w' x) = prv (heap w x)"
    and "\<forall>x. (owner (heap w' x) = Some s) = (owner (heap w x) = Some s)"
    and "head (sigs w' s) = head (sigs w s)" and "tail (sigs w' s) = tail (sigs w s)"
  shows "attached w' s xs"
  using assms unfolding attached_def by (simp add: seg_cong [of xs "heap w'" "heap w"])

lemma inv_fresh: "world_inv w \<Longrightarrow> nalloc w \<le> r \<Longrightarrow> owner (heap w r) = None"
  unfolding world_inv_def by (metis not_le)

lemma alloc_simps [simp]:
  "fst (alloc b w) = nalloc w"
  "heap (snd (alloc b w)) = (heap w)(nalloc w := b)"
  "sigs (snd (alloc b w)) = sigs w"
  "nalloc (snd (alloc b w)) = Suc (nalloc w)"
  "trace (snd (alloc b w)) = trace w"
  "promises (snd (alloc b w)) = promises w"
  by (simp_all add: alloc_def)

lemma addSignalBinding_empty:
  assumes "head (sigs w s) = None"
  shows "heap (addSignalBinding s n w) = (heap w)(n := (heap w n)\<lparr>owner := Some s\<rparr>)"
    and "sigs (addSignalBinding s n w) = (sigs w)(s := (sigs w s)\<lparr>head := Some n, tail := Some n\<rparr>)"
  using assms by (simp_all add: addSignalBinding_def)

lemma addSignalBinding_nonempty:
  assumes "head (sigs w s) = Some y" "tail (sigs w s) = Some t" "t \<noteq> n"
  shows "heap (addSignalBinding s n w) =
           (heap w)(t := (heap w t)\<lparr>nxt := Some n\<rparr>, n := (heap w n)\<lparr>prv := Some t, owner := Some s\<rparr>)"
    and "sigs (addSignalBinding s n w) = (sigs w)(s := (sigs w s)\<lparr>tail := Some n\<rparr>)"
  using assms by (simp_all add: addSignalBinding_def Let_def)

lemma attach_new:
  assumes inv: "world_inv w" and att: "attached w s xs"
    and b: "nxt b = None" "prv b = None"
  shows "attached (addSignalBinding s (nalloc w) (snd (alloc b w))) s (xs @ [nalloc w])"
proof -
  let ?n = "nalloc w"
  let ?w1 = "snd (alloc b w)"
  have fresh: "owner (heap w ?n) = None" using inv inv_fresh by simp
  then have notin: "?n \<notin> set xs" using attached_owner [OF att] by simp
  have own: "\<forall>r. (r \<in> set xs) = (owner (heap w r) = Some s)"
    using att by (simp add: attached_def)
  show ?thesis
  proof (cases xs rule: rev_cases)
    case Nil
    then have h: "head (sigs ?w1 s) = None"
      using attached_head [OF att] by simp
    show ?thesis
      unfolding attached_def addSignalBinding_empty [OF h]
      using Nil b own by auto
  next
    case (snoc ys t)
    have tl: "tail (sigs ?w1 s) = Some t"
      using attached_tail [OF att] snoc by simp
    obtain y where hy: "head (sigs ?w1 s) = Some y"
      using attached_head [OF att] snoc by (cases ys) auto
    have tn: "t \<noteq> ?n" using notin snoc by auto
    have dist: "t \<notin> set ys" "?n \<notin> set ys" "distinct ys"
      using att notin snoc by (auto simp: attached_def)
    have sg: "seg (heap w) (head (sigs w s)) None ys (Some t)"
      "prv (heap w t) = lastp None ys"
      using att snoc by (auto simp: attached_def seg_snoc)
    let ?h = "heap (addSignalBinding s ?n ?w1)"
    have s1: "seg ?h (head (sigs w s)) None ys (Some t)"
      unfolding addSignalBinding_nonempty [OF hy tl tn]
      using sg(1) dist by (subst seg_cong [of ys _ "heap w"]) auto
    have hh: "head (sigs (addSignalBinding s ?n ?w1) s) = head (sigs w s)"
      "tail (sigs (addSignalBinding s ?n ?w1) s) = Some ?n"
      unfolding addSignalBinding_nonempty [OF hy tl tn] by simp_all
    have flds: "prv (?h t) = lastp None ys" "nxt (?h t) = Some ?n"
      "prv (?h ?n) = Some t" "nxt (?h ?n) = None"
      unfolding addSignalBinding_nonempty [OF hy tl tn] using sg(2) tn b by simp_all
    have own': "\<forall>r. (r \<in> set (xs @ [?n])) = (owner (?h r) = Some s)"
      unfolding addSignalBinding_nonempty [OF hy tl tn] using own fresh by auto
    show ?thesis
      unfolding attached_def hh
      using s1 flds own' dist tn snoc by (simp add: seg_append)
  qed
qed

lemma attach_new_other:
  assumes inv: "world_inv w" and att: "attached w s' xs" and ne: "s' \<noteq> s"
  shows "attached (addSignalBinding s (nalloc w) (snd (alloc b w))) s' xs"
proof -
  let ?n = "nalloc w"
  let ?w1 = "snd (alloc b w)"
  let ?w2 = "addSignalBinding s ?n ?w1"
  have fresh: "owner (heap w ?n) = None" using inv inv_fresh by simp
  then have notin: "?n \<notin> set xs" using attached_owner [OF att] by simp
  obtain ys where ys: "attached w s ys" using inv unfolding world_inv_def by blast
  have "(\<forall>x\<in>set xs. heap ?w2 x = heap w x)
        \<and> (\<forall>x. (owner (heap ?w2 x) = Some s') = (owner (heap w x) = Some s'))
        \<and> sigs ?w2 s' = sigs w s'"
  proof (cases ys rule: rev_cases)
    case Nil
    then have h: "head (sigs ?w1 s) = None"
      using attached_head [OF ys] by simp
    show ?thesis
      unfolding addSignalBinding_empty [OF h]
      using notin ne fresh by auto
  next
    case (snoc zs t)
    have tl: "tail (sigs ?w1 s) = Some t"
      using attached_tail [OF ys] snoc by simp
    obtain y where hy: "head (sigs ?w1 s) = Some y"
      using attached_head [OF ys] snoc by (cases zs) auto
    have "owner (heap w t) = Some s" using attached_owner [OF ys, of t] snoc by simp
    then have t: "t \<notin> set xs" "t \<noteq> ?n" using attached_owner [OF att, of t] ne fresh by auto
    show ?thesis
      unfolding addSignalBinding_nonempty [OF hy tl t(2)]
      using notin ne fresh t by auto
  qed
  then show ?thesis
    by (intro attached_frame [OF att]) simp_all
qed

lemma addSignalBinding_nalloc [simp]: "nalloc (addSignalBinding s n w) = nalloc w"
  by (simp add: addSignalBinding_def Let_def split: option.splits)

lemma addSignalBinding_owner:
  "owner (heap (addSignalBinding s n w) r) = (if r = n then Some s else owner (heap w r))"
  by (simp add: addSignalBinding_def Let_def split: option.splits)

lemma attach_new_inv:
  assumes inv: "world_inv w" and b: "nxt b = None" "prv b = None"
  shows "world_inv (addSignalBinding s (nalloc w) (snd (alloc b w)))"
  unfolding world_inv_def
proof (intro conjI allI impI)
  fix s'
  obtain xs where xs: "attached w s' xs" using inv unfolding world_inv_def by blast
  show "\<exists>xs. attached (addSignalBinding s (nalloc w) (snd (alloc b w))) s' xs"
  proof (cases "s' = s")
    case True
    then show ?thesis using attach_new [OF inv _ b] xs by blast
  next
    case False
    then show ?thesis using attach_new_other [OF inv xs] by blast
  qed
next
  fix r
  assume "owner (heap (addSignalBinding s (nalloc w) (snd (alloc b w))) r) \<noteq> None"
  then have "r = nalloc w \<or> owner (heap w r) \<noteq> None"
    by (auto simp: addSignalBinding_owner split: if_splits)
  then show "r < nalloc (addSignalBinding s (nalloc w) (snd (alloc b w)))"
    using inv unfolding world_inv_def by (auto simp: less_Suc_eq)
qed

lemma add_inv: "world_inv w \<Longrightarrow> world_inv (snd (add s f t w))"
  using attach_new_inv [of w "new_binding f False t" s]
  by (simp add: add_def alloc_def new_binding_def split: prod.splits)

lemma once_add_inv: "world_inv w \<Longrightarrow> world_inv (snd (once_add s f t w))"
  using attach_new_inv [of w "new_binding f True t" s]
  by (simp add: once_add_def alloc_def new_binding_def split: prod.splits)

section \<open>Detaching a binding\<close>

lemma hdp_append [simp]: "hdp (xs @ ys) e = hdp xs (hdp ys e)"
  by (cases xs) auto

lemma attached_mid:
  assumes att: "attached w s (ys @ r # zs)"
  shows "owner (heap w r) = Some s"
    and "prv (heap w r) = lastp None ys"
    and "nxt (heap w r) = hdp zs None"
    and "head (sigs w s) = hdp ys (Some r)"
    and "tail (sigs w s) = lastp (Some r) zs"
    and "r \<notin> set ys" and "r \<notin> set zs" and "distinct ys" and "distinct zs"
    and "set ys \<inter> set zs = {}"
  using att attached_head [OF att] attached_owner [OF att, of r]
  by (auto simp: attached_def seg_mid)

lemma detach_shape:
  assumes att: "attached w s (ys @ r # zs)"
  shows "heap (detach s r w) =
           (\<lambda>x. if x = r then (heap w r)\<lparr>owner := None\<rparr>
                else if lastp None ys = Some x then (heap w x)\<lparr>nxt := hdp zs None\<rparr>
                else if hdp zs None = Some x then (heap w x)\<lparr>prv := lastp None ys\<rparr>
                else heap w x)"
    and "sigs (detach s r w) =
           (sigs w)(s := (sigs w s)\<lparr>head := (if ys = [] then hdp zs None else head (sigs w s)),
                                     tail := (if zs = [] then lastp None ys else tail (sigs w s))\<rparr>)"
proof -
  note m = attached_mid [OF att]
  have both: "heap (detach s r w) =
           (\<lambda>x. if x = r then (heap w r)\<lparr>owner := None\<rparr>
                else if lastp None ys = Some x then (heap w x)\<lparr>nxt := hdp zs None\<rparr>
                else if hdp zs None = Some x then (heap w x)\<lparr>prv := lastp None ys\<rparr>
                else heap w x)
     \<and> sigs (detach s r w) =
           (sigs w)(s := (sigs w s)\<lparr>head := (if ys = [] then hdp zs None else head (sigs w s)),
                                     tail := (if zs = [] then lastp None ys else tail (sigs w s))\<rparr>)"
  proof (cases ys rule: rev_cases)
    case Nil
    note ysn = Nil
    show ?thesis
    proof (cases zs)
      case Nil
      then show ?thesis using ysn m(1-5)
        by (auto simp: detach_def Let_def fun_eq_iff)
    next
      case (Cons z zs')
      then have "z \<noteq> r" using m(7) by auto
      then show ?thesis using ysn Cons m(1-5)
        by (auto simp: detach_def Let_def fun_eq_iff)
    qed
  next
    case (snoc ys' y)
    note yss = snoc
    have yr: "y \<noteq> r" using m(6) snoc by auto
    have hr: "head (sigs w s) \<noteq> Some r" using m(4,6) snoc by (cases ys') auto
    show ?thesis
    proof (cases zs)
      case Nil
      then show ?thesis using yss m(1-5) yr hr
        by (auto simp: detach_def Let_def fun_eq_iff)
    next
      case (Cons z zs')
      then have zr: "z \<noteq> r" "z \<noteq> y" using m(7,10) yss by auto
      have tr: "tail (sigs w s) \<noteq> Some r" using m(5,7) Cons by (auto simp: lastp_last)
      show ?thesis using yss Cons m(1-5) yr hr zr tr
        by (auto simp: detach_def Let_def fun_eq_iff)
    qed
  qed
  show "heap (detach s r w) =
           (\<lambda>x. if x = r then (heap w r)\<lparr>owner := None\<rparr>
                else if lastp None ys = Some x then (heap w x)\<lparr>nxt := hdp zs None\<rparr>
                else if hdp zs None = Some x then (heap w x)\<lparr>prv := lastp None ys\<rparr>
                else heap w x)" using both by blast
  show "sigs (detach s r w) =
           (sigs w)(s := (sigs w s)\<lparr>head := (if ys = [] then hdp zs None else head (sigs w s)),
                                     tail := (if zs = [] then lastp None ys else tail (sigs w s))\<rparr>)"
    using both by blast
qed

lemma lastp_in: "lastp None ys = Some x \<Longrightarrow> x \<in> set ys"
  by (auto simp: lastp_last split: if_splits)

lemma hdp_in: "hdp zs None = Some x \<Longrightarrow> x \<in> set zs"
  by (cases zs) auto

lemma detach_owner_eq:
  assumes att: "attached w s (ys @ r # zs)"
  shows "owner (heap (detach s r w) x) = (if x = r then None else owner (heap w x))"
  unfolding detach_shape [OF att] by simp

lemma detach_nxt_eq:
  assumes att: "attached w s (ys @ r # zs)"
  shows "nxt (heap (detach s r w) x) =
           (if x \<noteq> r \<and> lastp None ys = Some x then hdp zs None else nxt (heap w x))"
  unfolding detach_shape [OF att] by simp

lemma detach_prv_eq:
  assumes att: "attached w s (ys @ r # zs)"
  shows "prv (heap (detach s r w) x) =
           (if x \<noteq> r \<and> lastp None ys \<noteq> Some x \<and> hdp zs None = Some x then lastp None ys
            else prv (heap w x))"
  unfolding detach_shape [OF att] by simp

lemma detach_attached:
  assumes att: "attached w s (ys @ r # zs)"
  shows "attached (detach s r w) s (ys @ zs)"
proof -
  note m = attached_mid [OF att]
  let ?w = "detach s r w"
  have segs: "seg (heap w) (head (sigs w s)) None ys (Some r)"
    "seg (heap w) (hdp zs None) (Some r) zs None"
    using att by (auto simp: attached_def seg_mid)
  have hd: "head (sigs ?w s) = (if ys = [] then hdp zs None else head (sigs w s))"
    and tl: "tail (sigs ?w s) = (if zs = [] then lastp None ys else tail (sigs w s))"
    unfolding detach_shape [OF att] by simp_all
  have A: "seg (heap ?w) (head (sigs ?w s)) None ys (hdp zs None)"
  proof (cases ys rule: rev_cases)
    case Nil
    then show ?thesis using hd by simp
  next
    case (snoc ys' y)
    have ne: "y \<noteq> r" "y \<notin> set ys'" "r \<notin> set ys'" "y \<notin> set zs"
      using m(6,8,10) snoc by auto
    have "\<forall>x\<in>set ys'. nxt (heap ?w x) = nxt (heap w x) \<and> prv (heap ?w x) = prv (heap w x)"
      using snoc ne m(10) by (auto simp: detach_nxt_eq [OF att] detach_prv_eq [OF att] dest: hdp_in)
    then have "seg (heap ?w) (head (sigs w s)) None ys' (Some y) = seg (heap w) (head (sigs w s)) None ys' (Some y)"
      by (rule seg_cong)
    moreover have "seg (heap w) (head (sigs w s)) None ys' (Some y)" "prv (heap w y) = lastp None ys'"
      using segs(1) snoc by (auto simp: seg_snoc)
    moreover have "prv (heap ?w y) = prv (heap w y)" "nxt (heap ?w y) = hdp zs None"
      using snoc ne by (auto simp: detach_nxt_eq [OF att] detach_prv_eq [OF att])
    ultimately show ?thesis using snoc hd by (simp add: seg_snoc)
  qed
  have B: "seg (heap ?w) (hdp zs None) (lastp None ys) zs None"
  proof (cases zs)
    case Nil
    then show ?thesis by simp
  next
    case (Cons z zs')
    have ne: "z \<noteq> r" "z \<notin> set zs'" "r \<notin> set zs'" "z \<notin> set ys"
      using m(7,9,10) Cons by auto
    have lz: "lastp None ys \<noteq> Some z" using ne(4) by (auto dest: lastp_in)
    have "\<forall>x\<in>set zs'. nxt (heap ?w x) = nxt (heap w x) \<and> prv (heap ?w x) = prv (heap w x)"
      using Cons ne m(10) by (auto simp: detach_nxt_eq [OF att] detach_prv_eq [OF att] dest: lastp_in)
    then have "seg (heap ?w) (nxt (heap w z)) (Some z) zs' None = seg (heap w) (nxt (heap w z)) (Some z) zs' None"
      by (rule seg_cong)
    moreover have "seg (heap w) (nxt (heap w z)) (Some z) zs' None"
      using segs(2) Cons by simp
    moreover have "prv (heap ?w z) = lastp None ys" "nxt (heap ?w z) = nxt (heap w z)"
      using Cons ne lz by (auto simp: detach_nxt_eq [OF att] detach_prv_eq [OF att])
    ultimately show ?thesis using Cons by simp
  qed
  have C: "tail (sigs ?w s) = lastp None (ys @ zs)"
    using tl m(5) by (auto simp: lastp_last)
  have D: "distinct (ys @ zs)" using m(8,9,10) by simp
  have E: "\<forall>x. (x \<in> set (ys @ zs)) = (owner (heap ?w x) = Some s)"
    using attached_owner [OF att] m(6,7) by (auto simp: detach_owner_eq [OF att])
  show ?thesis
    unfolding attached_def using A B C D E by (simp add: seg_append)
qed

lemma detach_other:
  assumes att: "attached w s (ys @ r # zs)" and att': "attached w s' xs" and ne: "s' \<noteq> s"
  shows "attached (detach s r w) s' xs"
proof -
  have disj: "x \<in> set xs \<Longrightarrow> x \<notin> set (ys @ r # zs)" for x
    using attached_owner [OF att, of x] attached_owner [OF att', of x] ne by auto
  have "\<forall>x\<in>set xs. heap (detach s r w) x = heap w x"
  proof
    fix x assume x: "x \<in> set xs"
    then have "x \<noteq> r" "x \<notin> set ys" "x \<notin> set zs" using disj by auto
    then have "x \<noteq> r" "lastp None ys \<noteq> Some x" "hdp zs None \<noteq> Some x"
      by (auto dest: lastp_in hdp_in)
    then show "heap (detach s r w) x = heap w x"
      unfolding detach_shape [OF att] by simp
  qed
  moreover have "\<forall>x. (owner (heap (detach s r w) x) = Some s') = (owner (heap w x) = Some s')"
    using attached_mid(1) [OF att] ne by (auto simp: detach_owner_eq [OF att])
  moreover have "sigs (detach s r w) s' = sigs w s'"
    unfolding detach_shape [OF att] using ne by simp
  ultimately show ?thesis
    by (intro attached_frame [OF att']) simp_all
qed

lemma detach_nalloc [simp]: "nalloc (detach s r w) = nalloc w"
  by (simp add: detach_def Let_def split: option.splits)

lemma detach_trace [simp]: "trace (detach s r w) = trace w"
  by (simp add: detach_def Let_def split: option.splits)

lemma detach_promises [simp]: "promises (detach s r w) = promises w"
  by (simp add: detach_def Let_def split: option.splits)

lemma attached_split:
  assumes "attached w s xs" and "owner (heap w r) = Some s"
  obtains ys zs where "xs = ys @ r # zs"
  using assms attached_owner [OF assms(1), of r] by (auto simp: in_set_conv_decomp)

lemma detach_inv:
  assumes inv: "world_inv w"
  shows "world_inv (detach s r w)"
proof (cases "owner (heap w r) = Some s")
  case False
  then show ?thesis using inv by (simp add: detach_foreign)
next
  case True
  obtain xs where xs: "attached w s xs" using inv unfolding world_inv_def by blast
  obtain ys zs where split: "xs = ys @ r # zs" using attached_split [OF xs True] by blast
  have att: "attached w s (ys @ r # zs)" using xs split by simp
  show ?thesis
    unfolding world_inv_def
  proof (intro conjI allI impI)
    fix s'
    obtain xs' where xs': "attached w s' xs'" using inv unfolding world_inv_def by blast
    show "\<exists>xs. attached (detach s r w) s' xs"
    proof (cases "s' = s")
      case True
      then show ?thesis using detach_attached [OF att] by blast
    next
      case False
      then show ?thesis using detach_other [OF att xs'] by blast
    qed
  next
    fix x
    assume "owner (heap (detach s r w) x) \<noteq> None"
    then have "owner (heap w x) \<noteq> None"
      by (auto simp: detach_owner_eq [OF att] split: if_splits)
    then show "x < nalloc (detach s r w)"
      using inv unfolding world_inv_def by simp
  qed
qed

section \<open>detachAll, handlers and the invariant under dispatch\<close>

lemma handlers_loop_seg:
  "seg (heap w) p q xs None \<Longrightarrow> handlers_loop w p acc = Some (acc @ xs)"
proof (induction xs arbitrary: p q acc)
  case Nil
  then show ?case by (subst handlers_loop.simps) simp
next
  case (Cons x xs)
  from Cons.IH [of "nxt (heap w x)" "Some x" "acc @ [x]"] Cons.prems
  show ?case by (subst handlers_loop.simps) simp
qed

lemma handlers_attached: "attached w s xs \<Longrightarrow> handlers s w = Some xs"
  unfolding handlers_def attached_def using handlers_loop_seg [of w _ None xs "[]"] by simp

lemma detachAll_loop_seg:
  "seg (heap w) p q xs None \<Longrightarrow>
   detachAll_loop p w = Some (fold (\<lambda>r. set_owner r None) xs w)"
proof (induction xs arbitrary: p q w)
  case Nil
  then show ?case by (subst detachAll_loop.simps) simp
next
  case (Cons x xs)
  have "seg (heap (set_owner x None w)) (nxt (heap w x)) (Some x) xs None
        = seg (heap w) (nxt (heap w x)) (Some x) xs None"
    by (rule seg_cong) simp
  then have "seg (heap (set_owner x None w)) (nxt (heap w x)) (Some x) xs None"
    using Cons.prems by simp
  from Cons.IH [OF this] show ?case using Cons.prems
    by (subst detachAll_loop.simps) simp
qed

lemma fold_clear:
  "heap (fold (\<lambda>r. set_owner r None) xs w) =
     (\<lambda>r. if r \<in> set xs then (heap w r)\<lparr>owner := None\<rparr> else heap w r)"
  "sigs (fold (\<lambda>r. set_owner r None) xs w) = sigs w"
  "nalloc (fold (\<lambda>r. set_owner r None) xs w) = nalloc w"
  "trace (fold (\<lambda>r. set_owner r None) xs w) = trace w"
  "promises (fold (\<lambda>r. set_owner r None) xs w) = promises w"
  by (induction xs arbitrary: w) (auto simp: fun_eq_iff)

lemma detachAll_result:
  assumes att: "attached w s xs"
  shows "\<exists>w'. detachAll s w = Some w'
      \<and> heap w' = (\<lambda>r. if r \<in> set xs then (heap w r)\<lparr>owner := None\<rparr> else heap w r)
      \<and> sigs w' = (sigs w)(s := (sigs w s)\<lparr>head := None, tail := None\<rparr>)
      \<and> nalloc w' = nalloc w \<and> trace w' = trace w \<and> promises w' = promises w"
proof (cases xs)
  case Nil
  then have "head (sigs w s) = None" "tail (sigs w s) = None"
    using attached_head [OF att] attached_tail [OF att] by simp_all
  then have "(sigs w s)\<lparr>head := None, tail := None\<rparr> = sigs w s"
    by (metis signal.surjective signal.update_convs(1) signal.update_convs(2) signal.simps(1))
  then show ?thesis using Nil \<open>head (sigs w s) = None\<close>
    by (simp add: detachAll_def)
next
  case (Cons x xs')
  let ?w0 = "set_tail s None (set_head s None w)"
  have h: "head (sigs w s) = Some x" using attached_head [OF att] Cons by simp
  have "seg (heap ?w0) (Some x) None xs None"
    using att h by (simp add: attached_def)
  from detachAll_loop_seg [OF this] show ?thesis
    using h by (simp add: detachAll_def fold_clear fun_eq_iff)
qed

lemma detachAll_inv:
  assumes inv: "world_inv w" and r: "detachAll s w = Some w'"
  shows "world_inv w'"
proof -
  obtain xs where xs: "attached w s xs" using inv unfolding world_inv_def by blast
  from detachAll_result [OF xs] r
  have hp: "heap w' = (\<lambda>r. if r \<in> set xs then (heap w r)\<lparr>owner := None\<rparr> else heap w r)"
    and sg: "sigs w' = (sigs w)(s := (sigs w s)\<lparr>head := None, tail := None\<rparr>)"
    and na: "nalloc w' = nalloc w"
    by auto
  have own: "owner (heap w' x) = (if x \<in> set xs then None else owner (heap w x))" for x
    unfolding hp by simp
  show ?thesis
    unfolding world_inv_def
  proof (intro conjI allI impI)
    fix s'
    obtain xs' where xs': "attached w s' xs'" using inv unfolding world_inv_def by blast
    show "\<exists>ys. attached w' s' ys"
    proof (cases "s' = s")
      case True
      have "attached w' s []"
        unfolding attached_def using attached_owner [OF xs] by (simp add: sg own)
      then show ?thesis using True by blast
    next
      case False
      have disj: "x \<in> set xs' \<Longrightarrow> x \<notin> set xs" for x
        using attached_owner [OF xs, of x] attached_owner [OF xs', of x] False by auto
      have "attached w' s' xs'"
      proof (intro attached_frame [OF xs'])
        show "\<forall>x\<in>set xs'. nxt (heap w' x) = nxt (heap w x) \<and> prv (heap w' x) = prv (heap w x)"
          unfolding hp by simp
        show "\<forall>x. (owner (heap w' x) = Some s') = (owner (heap w x) = Some s')"
          using attached_owner [OF xs] False by (auto simp: own)
      qed (simp_all add: sg False)
      then show ?thesis by blast
    qed
  next
    fix x
    assume "owner (heap w' x) \<noteq> None"
    then have "owner (heap w x) \<noteq> None" by (auto simp: own split: if_splits)
    then show "x < nalloc w'" using inv na unfolding world_inv_def by simp
  qed
qed

lemma detachAll_total: "world_inv w \<Longrightarrow> \<exists>w'. detachAll s w = Some w'"
  unfolding world_inv_def using detachAll_result by blast

lemma inv_frame:
  assumes inv: "world_inv w" and "heap w' = heap w"
    and "\<forall>s. head (sigs w' s) = head (sigs w s) \<and> tail (sigs w' s) = tail (sigs w s)"
    and "nalloc w \<le> nalloc w'"
  shows "world_inv w'"
  unfolding world_inv_def
proof (intro conjI allI impI)
  fix s
  obtain xs where xs: "attached w s xs" using inv unfolding world_inv_def by blast
  have "attached w' s xs" using assms(2,3) by (intro attached_frame [OF xs]) simp_all
  then show "\<exists>xs. attached w' s xs" by blast
next
  fix r assume "owner (heap w' r) \<noteq> None"
  then show "r < nalloc w'" using assms(2,4) inv unfolding world_inv_def by fastforce
qed

lemma settle_simps [simp]:
  "heap (settle p st w) = heap w" "sigs (settle p st w) = sigs w"
  "nalloc (settle p st w) = nalloc w"
  by (simp_all add: settle_def emit_def)

lemma new_promise_simps [simp]:
  "fst (new_promise w) = length (promises w)"
  "heap (snd (new_promise w)) = heap w" "sigs (snd (new_promise w)) = sigs w"
  "nalloc (snd (new_promise w)) = nalloc w" "trace (snd (new_promise w)) = trace w"
  "promises (snd (new_promise w)) = promises w @ [Pending]"
  by (simp_all add: new_promise_def)

lemma emit_inv: "world_inv w \<Longrightarrow> world_inv (emit e w)"
  by (erule inv_frame) simp_all

lemma settle_inv: "world_inv w \<Longrightarrow> world_inv (settle p st w)"
  by (erule inv_frame) simp_all

lemma new_promise_inv: "world_inv w \<Longrightarrow> world_inv (snd (new_promise w))"
  by (erule inv_frame) simp_all

lemma set_enabled_inv: "world_inv w \<Longrightarrow> world_inv (set_enabled s b w)"
  by (erule inv_frame) simp_all

lemma binding_detach_inv: "world_inv w \<Longrightarrow> world_inv (snd (binding_detach r w))"
  by (simp add: binding_detach_def detach_inv split: option.splits)

lemma Signal_dispatch_inv:
  assumes lp: "\<forall>s args node w. world_inv w \<longrightarrow> holds_after world_inv (lp s args node w)"
    and inv: "world_inv w"
  shows "holds_after world_inv (Signal_dispatch lp s args w)"
  using lp inv by (simp add: Signal_dispatch_def split: option.splits)

lemma AsyncSignal_dispatch_inv:
  assumes lp: "\<forall>s args node w. world_inv w \<longrightarrow> holds_after world_inv (lp s args node w)"
    and inv: "world_inv w"
  shows "holds_after world_inv (AsyncSignal_dispatch lp s args w)"
proof -
  have "holds_after world_inv (Signal_dispatch lp s (VResolve (length (promises w)) # args) (snd (new_promise w)))"
    using Signal_dispatch_inv [OF lp] new_promise_inv [OF inv] by blast
  then show ?thesis using inv
    by (auto simp: AsyncSignal_dispatch_def new_promise_def settle_inv split: outcome.splits prod.splits
             intro: settle_inv inv_frame)
qed

lemma do_action_inv:
  assumes lp: "\<forall>s args node w. world_inv w \<longrightarrow> holds_after world_inv (lp s args node w)"
    and inv: "world_inv w"
  shows "holds_after world_inv (do_action lp args a w)"
proof (cases a)
  case (Dispatch s dargs)
  then show ?thesis
    using Signal_dispatch_inv [OF lp inv] AsyncSignal_dispatch_inv [OF lp inv]
    by (simp add: call_dispatch_def)
next
  case (DetachAll s)
  then show ?thesis using inv detachAll_inv by (auto split: option.splits)
next
  case CallResolve
  then show ?thesis using inv by (auto simp: settle_inv split: list.splits val.splits)
next
  case (BindingDetach r)
  then show ?thesis using binding_detach_inv [OF inv, of r]
    by (auto simp: emit_inv inv split: prod.splits)
qed (use inv in \<open>auto simp: add_inv once_add_inv detach_inv set_enabled_inv emit_inv split: option.splits\<close>)

lemma run_inv:
  "(\<forall>args body w. world_inv w \<longrightarrow> holds_after world_inv (exec n args body w))
   \<and> (\<forall>s args node w. world_inv w \<longrightarrow> holds_after world_inv (dispatch_loop n s args node w))"
proof (induction n)
  case 0
  show ?case by simp
next
  case (Suc n)
  have lp: "\<forall>s args node w. world_inv w \<longrightarrow> holds_after world_inv (dispatch_loop n s args node w)"
    using Suc by blast
  have ex: "\<And>args body w. world_inv w \<Longrightarrow> holds_after world_inv (exec n args body w)"
    using Suc by blast
  have A: "holds_after world_inv (exec (Suc n) args body w)" if inv: "world_inv w" for args body w
  proof (cases body)
    case Nil
    then show ?thesis using inv by simp
  next
    case (Cons a rest)
    have "holds_after world_inv (do_action (dispatch_loop n) args a w)"
      using do_action_inv [of "dispatch_loop n", OF lp inv] .
    then show ?thesis using Cons ex
      by (cases "do_action (dispatch_loop n) args a w") simp_all
  qed
  have B: "holds_after world_inv (dispatch_loop (Suc n) s args node w)" if inv: "world_inv w"
    for s args node w
  proof (cases node)
    case None
    then show ?thesis using inv by simp
  next
    case (Some r)
    let ?w1 = "if once (heap w r) then detach s r w else w"
    let ?w2 = "emit (Call r (thisArg (heap ?w1 r)) (forward args)) ?w1"
    have "world_inv ?w2" using inv by (simp add: detach_inv emit_inv)
    from ex [OF this] have "holds_after world_inv (exec n (forward args) (fn (heap ?w2 r)) ?w2)" .
    then show ?thesis using Some lp [rule_format]
      by (cases "exec n (forward args) (fn (heap ?w2 r)) ?w2") (simp_all add: Let_def)
  qed
  show ?case using A B by blast
qed

section \<open>Properties of the operations\<close>

lemmas world_defs = sync_world_def async_world_def init_world_def new_binding_def
  add_def once_add_def alloc_def addSignalBinding_def detach_def binding_detach_def
  set_next_def set_prev_def set_owner_def set_head_def set_tail_def set_enabled_def emit_def
  has_def hasAny_def

lemmas run_defs = signal_dispatch_def async_dispatch_def Signal_dispatch_def
  AsyncSignal_dispatch_def call_dispatch_def new_promise_def settle_def forward_def

lemma init_inv: "world_inv (init_world a)"
  by (simp add: world_inv_def attached_def init_world_def new_binding_def exI [of _ "[]"])

lemma two_handlers_inv: "world_inv two_handlers"
  unfolding two_handlers_def sync_world_def by (intro add_inv init_inv)

text \<open>
  When \<open>Signal.dispatch\<close> reaches a once-binding, the handler starts in a world where the
  binding is no longer owned by the signal and no longer in its list.
\<close>

lemma once_binding_detached_on_entry:
  assumes inv: "world_inv w" and o1: "once (heap w r)"
  shows "\<not> has s r (enter s args r w)"
    and "\<exists>xs. handlers s (enter s args r w) = Some xs \<and> r \<notin> set xs"
proof -
  let ?w1 = "detach s r w"
  have e: "heap (enter s args r w) = heap ?w1" "sigs (enter s args r w) = sigs ?w1"
    using o1 by (simp_all add: enter_def Let_def)
  have n: "owner (heap ?w1 r) \<noteq> Some s"
    using detach_owner [of w r s] by (cases "owner (heap w r) = Some s") (simp_all add: detach_foreign)
  then show "\<not> has s r (enter s args r w)" by (simp add: has_def e)
  obtain xs where xs: "attached ?w1 s xs"
    using detach_inv [OF inv, of s r] unfolding world_inv_def by blast
  then have "attached (enter s args r w) s xs"
    by (rule attached_frame) (simp_all add: e)
  then have "handlers s (enter s args r w) = Some xs" by (rule handlers_attached)
  moreover have "r \<notin> set xs" using attached_owner [OF xs, of r] n by simp
  ultimately show "\<exists>xs. handlers s (enter s args r w) = Some xs \<and> r \<notin> set xs" by blast
qed

text \<open>
  C1. A binding registered with \<open>once\<close> should be invoked at most once. Signal 0 holds two
  once-bindings: binding 0, whose handler calls \<open>dispatch\<close> on the same signal, and binding
  1. \<open>Signal.detach\<close> leaves the \<open>next\<close> link of binding 0 pointing to binding 1, so after
  the inner dispatch has invoked (and detached) binding 1, the outer loop follows that link
  and invokes binding 1 a second time.
\<close>

theorem once_handler_invoked_twice:
  "map_option trace (result (signal_dispatch 10 0 [] reentrant_once))
     = Some [Call 0 VNull [], Call 1 VNull [], Call 1 VNull []]"
  by (simp add: reentrant_once_def world_defs run_defs Let_def eval_nat_numeral)

text \<open>
  Whatever the step bound, \<open>AsyncSignal.dispatch\<close> on an enabled signal without bindings
  returns with nothing but its new, pending promise.
\<close>

lemma async_dispatch_empty:
  "enabled (sigs w s) \<Longrightarrow> head (sigs w s) = None \<Longrightarrow>
   async_dispatch n s args w = Returns (snd (new_promise w))"
  by (simp add: async_dispatch_def AsyncSignal_dispatch_def Signal_dispatch_def new_promise_def)

text \<open>
  C4. On an enabled \<open>AsyncSignal\<close> without bindings, \<open>Signal.dispatch\<close> returns before it
  calls anything, so nobody ever holds the \<open>resolve\<close> function: no handler is invoked and
  the promise awaited by \<open>AsyncSignal.dispatch\<close> stays pending.
\<close>

theorem async_dispatch_empty_stays_pending:
  "map_option promises (result (async_dispatch 10 0 [] async_world)) = Some [Pending]
   \<and> map_option trace (result (async_dispatch 10 0 [] async_world)) = Some []"
  by (simp add: world_defs run_defs Let_def)

text \<open>
  C2, as stated, fails: after \<open>detach\<close> of the first of two bindings its owner is \<open>null\<close>,
  but its \<open>next\<close> link still refers to the second binding.
\<close>

theorem detach_clears_links_counterexample:
  "has 0 0 two_handlers \<and> owner (heap (detach 0 0 two_handlers) 0) = None
   \<and> nxt (heap (detach 0 0 two_handlers) 0) = Some 1"
  by (simp add: two_handlers_def world_defs Let_def)

lemma detach_links:
  assumes inv: "world_inv w" and own: "owner (heap w r) = Some s"
  shows "nxt (heap (detach s r w) r) = nxt (heap w r)"
    and "prv (heap (detach s r w) r) = prv (heap w r)"
proof -
  obtain xs where xs: "attached w s xs" using inv unfolding world_inv_def by blast
  obtain ys zs where "xs = ys @ r # zs" using attached_split [OF xs own] by blast
  then have att: "attached w s (ys @ r # zs)" using xs by simp
  show "nxt (heap (detach s r w) r) = nxt (heap w r)"
    by (simp add: detach_nxt_eq [OF att])
  show "prv (heap (detach s r w) r) = prv (heap w r)"
    by (simp add: detach_prv_eq [OF att])
qed

lemma detachAll_owner:
  assumes inv: "world_inv w" and own: "owner (heap w r) = Some s"
  shows "case detachAll s w of
           None \<Rightarrow> False
         | Some w' \<Rightarrow> owner (heap w' r) = None \<and> nxt (heap w' r) = nxt (heap w r)
                     \<and> prv (heap w' r) = prv (heap w r)"
proof -
  obtain xs where xs: "attached w s xs" using inv unfolding world_inv_def by blast
  from detachAll_result [OF xs] attached_owner [OF xs, of r] own
  show ?thesis by auto
qed

text \<open>
  C2, amended. A binding attached to signal \<open>s\<close> has owner \<open>null\<close> after
  \<open>Signal.detach\<close> (which is also what \<open>Binding.detach\<close> and the removal of a once-binding
  by \<open>dispatch\<close> call) and after \<open>detachAll\<close>; its own \<open>next\<close> and \<open>prev\<close> links are
  left as they were.
\<close>

theorem detached_binding_owner_null:
  assumes "world_inv w" and "owner (heap w r) = Some s"
  shows "owner (heap (detach s r w) r) = None
       \<and> nxt (heap (detach s r w) r) = nxt (heap w r)
       \<and> prv (heap (detach s r w) r) = prv (heap w r)
       \<and> binding_detach r w = (True, detach s r w)
       \<and> (case detachAll s w of
             None \<Rightarrow> False
           | Some w' \<Rightarrow> owner (heap w' r) = None \<and> nxt (heap w' r) = nxt (heap w r)
                       \<and> prv (heap w' r) = prv (heap w r))"
  using assms detach_owner [OF assms(2)] detach_links [OF assms] detachAll_owner [OF assms]
  by (simp add: binding_detach_def)

lemma two_handlers_owner: "owner (heap two_handlers 0) = Some 0"
  by (simp add: two_handlers_def world_defs Let_def)

theorem detached_binding_owner_null_witness:
  "world_inv two_handlers \<and> owner (heap two_handlers 0) = Some 0
   \<and> owner (heap (detach 0 0 two_handlers) 0) = None
   \<and> nxt (heap (detach 0 0 two_handlers) 0) = nxt (heap two_handlers 0)
   \<and> prv (heap (detach 0 0 two_handlers) 0) = prv (heap two_handlers 0)
   \<and> binding_detach 0 two_handlers = (True, detach 0 0 two_handlers)
   \<and> (case detachAll 0 two_handlers of
         None \<Rightarrow> False
       | Some w' \<Rightarrow> owner (heap w' 0) = None \<and> nxt (heap w' 0) = nxt (heap two_handlers 0)
                   \<and> prv (heap w' 0) = prv (heap two_handlers 0))"
  using detached_binding_owner_null [OF two_handlers_inv two_handlers_owner]
    two_handlers_inv two_handlers_owner by simp

text \<open>
  C7. On an attached binding \<open>Binding.detach\<close> returns \<open>true\<close> and leaves the owner
  \<open>null\<close>; a second call returns \<open>false\<close> and changes nothing. On a binding without owner
  it returns \<open>false\<close> and changes nothing.
\<close>

theorem binding_detach_twice:
  "(owner (heap w r) \<noteq> None \<longrightarrow>
      fst (binding_detach r w) = True
    \<and> owner (heap (snd (binding_detach r w)) r) = None
    \<and> binding_detach r (snd (binding_detach r w)) = (False, snd (binding_detach r w)))
   \<and> (owner (heap w r) = None \<longrightarrow> binding_detach r w = (False, w))"
  by (auto simp: binding_detach_def detach_owner split: option.splits)

theorem binding_detach_twice_witness:
  "owner (heap two_handlers 0) \<noteq> None
   \<and> fst (binding_detach 0 two_handlers) = True
   \<and> owner (heap (snd (binding_detach 0 two_handlers)) 0) = None
   \<and> binding_detach 0 (snd (binding_detach 0 two_handlers))
       = (False, snd (binding_detach 0 two_handlers))
   \<and> owner (heap sync_world 0) = None
   \<and> binding_detach 0 sync_world = (False, sync_world)"
proof -
  have a: "owner (heap two_handlers 0) \<noteq> None" by (simp add: two_handlers_owner)
  have b: "owner (heap sync_world 0) = None" by (simp add: world_defs)
  show ?thesis
    using binding_detach_twice [of two_handlers 0] binding_detach_twice [of sync_world 0] a b
    by simp
qed

text \<open>
  C3. \<open>add\<close>, \<open>once\<close>, \<open>Signal.detach\<close>, \<open>Binding.detach\<close>, \<open>detachAll\<close> (which returns)
  and both \<open>dispatch\<close> methods, whatever the handlers do and whether the dispatch returns or
  throws, preserve the invariant: every signal's \<open>_head\<close>/\<open>_tail\<close> delimit a \<open>null\<close>-terminated
  list without repetition whose \<open>prev\<close> links mirror the \<open>next\<close> links, and the bindings of
  that list are exactly the bindings owned by the signal.
\<close>

theorem operations_preserve_invariant:
  assumes "world_inv w"
  shows "world_inv (snd (add s f t w))
       \<and> world_inv (snd (once_add s f t w))
       \<and> world_inv (detach s r w)
       \<and> world_inv (snd (binding_detach r w))
       \<and> (case detachAll s w of None \<Rightarrow> False | Some w' \<Rightarrow> world_inv w')
       \<and> holds_after world_inv (signal_dispatch n s args w)
       \<and> holds_after world_inv (async_dispatch n s args w)"
proof -
  have lp: "\<forall>s args node w. world_inv w \<longrightarrow> holds_after world_inv (dispatch_loop n s args node w)"
    using run_inv by blast
  have "case detachAll s w of None \<Rightarrow> False | Some w' \<Rightarrow> world_inv w'"
    using detachAll_total [OF assms, of s] detachAll_inv [OF assms] by auto
  then show ?thesis
    using assms Signal_dispatch_inv [OF lp assms] AsyncSignal_dispatch_inv [OF lp assms]
    by (simp add: add_inv once_add_inv detach_inv binding_detach_inv
        signal_dispatch_def async_dispatch_def)
qed

lemma reentrant_once_inv: "world_inv reentrant_once"
  unfolding reentrant_once_def sync_world_def by (intro once_add_inv init_inv)

lemma reentrant_once_returns: "result (signal_dispatch 10 0 [] reentrant_once) \<noteq> None"
  by (simp add: reentrant_once_def world_defs run_defs Let_def eval_nat_numeral)

theorem operations_preserve_invariant_witness:
  "world_inv reentrant_once
   \<and> world_inv (snd (add 0 [] VNull reentrant_once))
   \<and> world_inv (snd (once_add 0 [] VNull reentrant_once))
   \<and> world_inv (detach 0 0 reentrant_once)
   \<and> world_inv (snd (binding_detach 0 reentrant_once))
   \<and> (case detachAll 0 reentrant_once of None \<Rightarrow> False | Some w' \<Rightarrow> world_inv w')
   \<and> holds_after world_inv (signal_dispatch 10 0 [] reentrant_once)
   \<and> result (signal_dispatch 10 0 [] reentrant_once) \<noteq> None
   \<and> holds_after world_inv (async_dispatch 10 0 [] reentrant_once)"
  using operations_preserve_invariant [OF reentrant_once_inv, of 0 "[]" VNull 0 10 "[]"]
    reentrant_once_inv reentrant_once_returns by simp

section \<open>Dispatch over benign handlers\<close>

lemma forward_id [simp]: "forward args = args"
proof -
  have "length args = k \<Longrightarrow> map ((!) args) [0..<k] = args" for k
    by (auto simp: map_nth)
  from this [of 0] this [of 1] this [of 2] this [of 3] this [of 4] this [of 5]
  show ?thesis
    by (simp add: forward_def Let_def eval_nat_numeral)
qed

lemma do_action_benign:
  "benign r args a \<Longrightarrow> r < nalloc w \<Longrightarrow> do_action lp args a w = Returns (benign_step args a w)"
  by (cases a) (auto split: list.splits val.splits prod.splits)

lemma benign_step_nalloc [simp]: "nalloc (benign_step args a w) = nalloc w"
  by (cases a) (auto simp: binding_detach_def split: list.splits val.splits prod.splits option.splits)

lemma exec_benign:
  "\<forall>a\<in>set body. benign r args a \<Longrightarrow> r < nalloc w \<Longrightarrow> length body \<le> n \<Longrightarrow>
   exec n args (body @ rest) w = exec (n - length body) args rest (fold (benign_step args) body w)"
proof (induction body arbitrary: n w)
  case Nil
  then show ?case by simp
next
  case (Cons a body)
  then obtain m where n: "n = Suc m" by (cases n) auto
  have "do_action (dispatch_loop m) args a w = Returns (benign_step args a w)"
    using Cons.prems do_action_benign [of r args a w] by simp
  moreover have "exec m args (body @ rest) (benign_step args a w)
      = exec (m - length body) args rest (fold (benign_step args) body (benign_step args a w))"
    using Cons.prems n by (intro Cons.IH) auto
  ultimately show ?case using n by simp
qed

lemma exec_benign_returns:
  assumes "\<forall>a\<in>set body. benign r args a" "r < nalloc w" "length body < n"
  shows "exec n args body w = Returns (fold (benign_step args) body w)"
proof -
  obtain k where k: "n - length body = Suc k" using assms(3) by (cases "n - length body") auto
  show ?thesis using exec_benign [OF assms(1,2), of n "[]"] assms(3) k by simp
qed

lemma store_eq: "(store w' = store w) = (heap w' = heap w \<and> sigs w' = sigs w \<and> nalloc w' = nalloc w)"
  by (auto simp: store_def)

lemma store_simps [simp]:
  "store (emit e w) = store w" "store (settle p st w) = store w"
  by (simp_all add: store_def)

lemma attached_store: "store w' = store w \<Longrightarrow> attached w' s xs = attached w s xs"
  by (simp add: store_eq attached_def)

lemma world_inv_store:
  assumes "store w' = store w"
  shows "world_inv w' = world_inv w"
proof -
  have h: "heap w' = heap w" "nalloc w' = nalloc w" using assms by (simp_all add: store_eq)
  show ?thesis unfolding world_inv_def attached_store [OF assms] h by simp
qed

lemma detach_store:
  assumes st: "store w1 = store w" and inv: "world_inv w"
  shows "store (detach s r w1) = store (detach s r w)"
proof (cases "owner (heap w r) = Some s")
  case False
  then show ?thesis using st by (simp add: detach_foreign store_eq)
next
  case True
  obtain xs where xs: "attached w s xs" using inv unfolding world_inv_def by blast
  obtain ys zs where "xs = ys @ r # zs" using attached_split [OF xs True] by blast
  then have att: "attached w s (ys @ r # zs)" using xs by simp
  then have att1: "attached w1 s (ys @ r # zs)" using attached_store [OF st] by simp
  have h: "heap w1 = heap w" "sigs w1 = sigs w" "nalloc w1 = nalloc w"
    using st by (simp_all add: store_eq)
  show ?thesis
    unfolding store_eq detach_shape [OF att] detach_shape [OF att1] h by (simp add: h)
qed

lemma benign_step_store:
  assumes "benign r args a" and "owner (heap w r) = Some s \<or> owner (heap w r) = None"
  shows "store (benign_step args a w) =
           (if owner (heap w r) = Some s \<and> detaches s r a then store (detach s r w) else store w)"
  using assms
  by (cases a) (auto simp: binding_detach_def detach_foreign split: list.splits val.splits)

lemma benign_fold_store:
  assumes "\<forall>a\<in>set body. benign r args a" and "owner (heap w r) = Some s \<or> owner (heap w r) = None"
    and "world_inv w"
  shows "store (fold (benign_step args) body w) =
           (if owner (heap w r) = Some s \<and> list_ex (detaches s r) body
            then store (detach s r w) else store w)"
  using assms
proof (induction body arbitrary: w)
  case Nil
  then show ?case by simp
next
  case (Cons a body)
  let ?w1 = "benign_step args a w"
  have st: "store ?w1 = (if owner (heap w r) = Some s \<and> detaches s r a then store (detach s r w) else store w)"
    using Cons.prems by (intro benign_step_store) auto
  show ?case
  proof (cases "owner (heap w r) = Some s \<and> detaches s r a")
    case True
    then have s1: "store ?w1 = store (detach s r w)" using st by simp
    then have "owner (heap ?w1 r) = None" using True detach_owner [of w r s] by (simp add: store_eq)
    moreover have "world_inv ?w1"
      using world_inv_store [OF s1] detach_inv [OF Cons.prems(3), of s r] by simp
    ultimately have "store (fold (benign_step args) body ?w1) = store ?w1"
      using Cons.IH [of ?w1] Cons.prems by simp
    then show ?thesis using True s1 by simp
  next
    case False
    with st have s1: "store ?w1 = store w" by (auto split: if_splits)
    then have o1: "owner (heap ?w1 r) = owner (heap w r)" by (simp add: store_eq)
    have i1: "world_inv ?w1" using world_inv_store [OF s1] Cons.prems(3) by simp
    have "store (fold (benign_step args) body ?w1) =
           (if owner (heap ?w1 r) = Some s \<and> list_ex (detaches s r) body
            then store (detach s r ?w1) else store ?w1)"
      using Cons.IH [of ?w1] Cons.prems o1 i1 by simp
    then show ?thesis using False s1 o1 detach_store [OF s1 Cons.prems(3)] by auto
  qed
qed

lemma settle_if_twice: "settle_if p b2 (settle_if p b1 ps) = settle_if p (b1 \<or> b2) ps"
  by (auto simp: settle_if_def)

lemma settled_if_twice:
  "settled_if p b1 ps @ settled_if p b2 (settle_if p b1 ps) = settled_if p (b1 \<or> b2) ps"
  by (auto simp: settle_if_def settled_if_def)

lemma settle_if_False [simp]: "settle_if p False ps = ps" "settled_if p False ps = []"
  by (simp_all add: settle_if_def settled_if_def)

lemma calls_simps [simp]:
  "calls [] = []" "calls (es @ es') = calls es @ calls es'"
  "calls (Call r t a # es) = Call r t a # calls es"
  by (simp_all add: calls_def)

lemma settlements_simps [simp]:
  "settlements p [] = []" "settlements p (es @ es') = settlements p es @ settlements p es'"
  "settlements p (Call r t a # es) = settlements p es"
  by (simp_all add: settlements_def)

lemma settle_Fulfilled:
  "promises (settle p Fulfilled w) = settle_if p True (promises w)"
  "trace (settle p Fulfilled w) = trace w @ settled_if p True (promises w)"
  by (simp_all add: settle_def settle_if_def settled_if_def)

lemma settlements_settled_if:
  "settlements q (settled_if p b ps) = (if q = p then settled_if p b ps else [])"
  "calls (settled_if p b ps) = []" "\<not> list_ex (sees_attached s) (settled_if p b ps)"
  by (simp_all add: settlements_def settled_if_def calls_def)

lemma benign_step_events:
  assumes "benign r args a"
  shows "\<exists>es. trace (benign_step args a w) = trace w @ es \<and> calls es = []
      \<and> (\<forall>p ra. args = VResolve p # ra \<longrightarrow>
            promises (benign_step args a w) = settle_if p (a = CallResolve) (promises w)
          \<and> (\<forall>q. settlements q es = (if q = p then settled_if p (a = CallResolve) (promises w) else [])))
      \<and> (owner (heap w r) = None \<and> head (sigs w s) = None \<longrightarrow> \<not> list_ex (sees_attached s) es)"
proof (cases a)
  case CallResolve
  then obtain p ra where "args = VResolve p # ra"
    using assms by (auto split: list.splits val.splits)
  then show ?thesis using CallResolve
    by (simp add: settle_Fulfilled settlements_settled_if)
qed (use assms in \<open>auto simp: binding_detach_def calls_def settlements_def has_def hasAny_def
      split: option.splits\<close>)

lemma benign_fold_events:
  assumes "\<forall>a\<in>set body. benign r args a"
  shows "\<exists>es. trace (fold (benign_step args) body w) = trace w @ es \<and> calls es = []
      \<and> (\<forall>p ra. args = VResolve p # ra \<longrightarrow>
            promises (fold (benign_step args) body w)
              = settle_if p (CallResolve \<in> set body) (promises w)
          \<and> (\<forall>q. settlements q es =
                 (if q = p then settled_if p (CallResolve \<in> set body) (promises w) else [])))
      \<and> (owner (heap w r) = None \<and> head (sigs w s) = None \<longrightarrow> \<not> list_ex (sees_attached s) es)"
  using assms
proof (induction body arbitrary: w)
  case Nil
  then show ?case by simp
next
  case (Cons a body)
  let ?w1 = "benign_step args a w"
  have ba: "benign r args a" using Cons.prems by simp
  from benign_step_events [OF ba, of w s] obtain es1 where
    t1: "trace ?w1 = trace w @ es1" and c1: "calls es1 = []"
    and p1: "\<forall>p ra. args = VResolve p # ra \<longrightarrow>
            promises ?w1 = settle_if p (a = CallResolve) (promises w)
          \<and> (\<forall>q. settlements q es1 = (if q = p then settled_if p (a = CallResolve) (promises w) else []))"
    and o1: "owner (heap w r) = None \<and> head (sigs w s) = None \<longrightarrow> \<not> list_ex (sees_attached s) es1"
    by blast
  from Cons.IH [of ?w1] Cons.prems obtain es2 where
    t2: "trace (fold (benign_step args) body ?w1) = trace ?w1 @ es2" and c2: "calls es2 = []"
    and p2: "\<forall>p ra. args = VResolve p # ra \<longrightarrow>
            promises (fold (benign_step args) body ?w1) = settle_if p (CallResolve \<in> set body) (promises ?w1)
          \<and> (\<forall>q. settlements q es2 = (if q = p then settled_if p (CallResolve \<in> set body) (promises ?w1) else []))"
    and o2: "owner (heap ?w1 r) = None \<and> head (sigs ?w1 s) = None \<longrightarrow> \<not> list_ex (sees_attached s) es2"
    by auto
  have st: "owner (heap w r) = None \<Longrightarrow> store ?w1 = store w"
    using benign_step_store [OF ba, of w s] by simp
  have A: "trace (fold (benign_step args) (a # body) w) = trace w @ (es1 @ es2)"
    using t1 t2 by simp
  have B: "calls (es1 @ es2) = []" using c1 c2 by simp
  have C: "\<forall>p ra. args = VResolve p # ra \<longrightarrow>
            promises (fold (benign_step args) (a # body) w)
              = settle_if p (CallResolve \<in> set (a # body)) (promises w)
          \<and> (\<forall>q. settlements q (es1 @ es2) =
                 (if q = p then settled_if p (CallResolve \<in> set (a # body)) (promises w) else []))"
  proof (intro allI impI)
    fix p ra assume args: "args = VResolve p # ra"
    have eq: "(CallResolve \<in> set (a # body)) = (a = CallResolve \<or> CallResolve \<in> set body)"
      by auto
    show "promises (fold (benign_step args) (a # body) w)
              = settle_if p (CallResolve \<in> set (a # body)) (promises w)
          \<and> (\<forall>q. settlements q (es1 @ es2) =
                 (if q = p then settled_if p (CallResolve \<in> set (a # body)) (promises w) else []))"
      unfolding eq using p1 [rule_format, OF args] p2 [rule_format, OF args]
      by (simp add: settle_if_twice settled_if_twice)
  qed
  have D: "owner (heap w r) = None \<and> head (sigs w s) = None \<longrightarrow> \<not> list_ex (sees_attached s) (es1 @ es2)"
    using o1 o2 st by (auto simp: store_eq)
  show ?case using A B C D by blast
qed

lemma detach_fields:
  assumes inv: "world_inv w"
  shows "fn (heap (detach s r w) y) = fn (heap w y)"
    and "once (heap (detach s r w) y) = once (heap w y)"
    and "thisArg (heap (detach s r w) y) = thisArg (heap w y)"
proof -
  have "fn (heap (detach s r w) y) = fn (heap w y)
      \<and> once (heap (detach s r w) y) = once (heap w y)
      \<and> thisArg (heap (detach s r w) y) = thisArg (heap w y)"
  proof (cases "owner (heap w r) = Some s")
    case False
    then show ?thesis by (simp add: detach_foreign)
  next
    case True
    obtain xs where xs: "attached w s xs" using inv unfolding world_inv_def by blast
    obtain ys zs where "xs = ys @ r # zs" using attached_split [OF xs True] by blast
    then have att: "attached w s (ys @ r # zs)" using xs by simp
    show ?thesis unfolding detach_shape [OF att] by simp
  qed
  then show "fn (heap (detach s r w) y) = fn (heap w y)"
    and "once (heap (detach s r w) y) = once (heap w y)"
    and "thisArg (heap (detach s r w) y) = thisArg (heap w y)" by simp_all
qed

lemma loop_step:
  assumes inv: "world_inv w" and ben: "\<forall>a\<in>set (fn (heap w x)). benign x args a"
    and x: "x < nalloc w" and fuel: "length (fn (heap w x)) < m"
  shows "dispatch_loop (Suc m) s args (Some x) w
           = dispatch_loop m s args (nxt (heap (visit s args x w) x)) (visit s args x w)"
proof -
  let ?w1 = "if once (heap w x) then detach s x w else w"
  let ?w2 = "emit (Call x (thisArg (heap ?w1 x)) args) ?w1"
  have f: "fn (heap ?w2 x) = fn (heap w x)" using detach_fields(1) [OF inv] by simp
  have "exec m args (fn (heap ?w2 x)) ?w2 = Returns (fold (benign_step args) (fn (heap ?w2 x)) ?w2)"
    using ben x fuel unfolding f by (intro exec_benign_returns [of _ x]) auto
  then show ?thesis by (simp add: visit_def enter_def Let_def)
qed

lemma same_code_refl [simp]: "same_code w w"
  by (simp add: same_code_def)

lemma same_code_trans: "same_code w w1 \<Longrightarrow> same_code w1 w2 \<Longrightarrow> same_code w w2"
  by (simp add: same_code_def)

lemma same_code_store: "store w' = store w \<Longrightarrow> same_code w w'"
  by (simp add: same_code_def store_eq)

lemma same_code_detach: "world_inv w \<Longrightarrow> same_code w (detach s r w)"
  by (simp add: same_code_def detach_fields)

lemma same_code_called_back: "same_code w w' \<Longrightarrow> called_back w' xs = called_back w xs"
  by (simp add: same_code_def called_back_def)

lemma same_code_stays: "same_code w w' \<Longrightarrow> stays w' s x = stays w s x"
  by (simp add: same_code_def stays_def)

lemma called_back_append [simp]:
  "called_back w [] = False"
  "called_back w (xs @ ys) = (called_back w xs \<or> called_back w ys)"
  "called_back w [x] = (CallResolve \<in> set (fn (heap w x)))"
  by (auto simp: called_back_def list_ex_iff)

lemma visited_Nil [simp]: "visited w args [] w"
  by (simp add: visited_def)

lemma visited_trans:
  assumes a: "visited w args xs w1" and b: "visited w1 args ys w2"
  shows "visited w args (xs @ ys) w2"
proof -
  from a obtain es1 where t1: "trace w1 = trace w @ es1"
    and c1: "calls es1 = map (\<lambda>x. Call x (thisArg (heap w x)) args) xs"
    and s1: "same_code w w1"
    and p1: "\<forall>p ra. args = VResolve p # ra \<longrightarrow>
              promises w1 = settle_if p (called_back w xs) (promises w)
            \<and> (\<forall>q. settlements q es1 =
                   (if q = p then settled_if p (called_back w xs) (promises w) else []))"
    unfolding visited_def by blast
  from b obtain es2 where t2: "trace w2 = trace w1 @ es2"
    and c2: "calls es2 = map (\<lambda>x. Call x (thisArg (heap w1 x)) args) ys"
    and s2: "same_code w1 w2"
    and p2: "\<forall>p ra. args = VResolve p # ra \<longrightarrow>
              promises w2 = settle_if p (called_back w1 ys) (promises w1)
            \<and> (\<forall>q. settlements q es2 =
                   (if q = p then settled_if p (called_back w1 ys) (promises w1) else []))"
    unfolding visited_def by blast
  have cb: "called_back w1 ys = called_back w ys" using same_code_called_back [OF s1] .
  have th: "thisArg (heap w1 x) = thisArg (heap w x)" for x using s1 by (simp add: same_code_def)
  have A: "trace w2 = trace w @ (es1 @ es2)" using t1 t2 by simp
  have B: "calls (es1 @ es2) = map (\<lambda>x. Call x (thisArg (heap w x)) args) (xs @ ys)"
    using c1 c2 th by simp
  have C: "same_code w w2" using same_code_trans [OF s1 s2] .
  have D: "\<forall>p ra. args = VResolve p # ra \<longrightarrow>
              promises w2 = settle_if p (called_back w (xs @ ys)) (promises w)
            \<and> (\<forall>q. settlements q (es1 @ es2) =
                   (if q = p then settled_if p (called_back w (xs @ ys)) (promises w) else []))"
  proof (intro allI impI)
    fix p ra assume args: "args = VResolve p # ra"
    show "promises w2 = settle_if p (called_back w (xs @ ys)) (promises w)
            \<and> (\<forall>q. settlements q (es1 @ es2) =
                   (if q = p then settled_if p (called_back w (xs @ ys)) (promises w) else []))"
      using p1 [rule_format, OF args] p2 [rule_format, OF args]
      by (simp add: cb settle_if_twice settled_if_twice)
  qed
  show ?thesis unfolding visited_def using A B C D by blast
qed

lemma visit_store:
  assumes inv: "world_inv w" and own: "owner (heap w x) = Some s \<or> owner (heap w x) = None"
    and ben: "\<forall>a\<in>set (fn (heap w x)). benign x args a"
  shows "store (visit s args x w) =
           (if owner (heap w x) = Some s \<and> \<not> stays w s x then store (detach s x w) else store w)"
proof -
  let ?w1 = "if once (heap w x) then detach s x w else w"
  let ?w2 = "emit (Call x (thisArg (heap ?w1 x)) args) ?w1"
  let ?body = "fn (heap w x)"
  have f: "fn (heap ?w2 x) = ?body" using detach_fields(1) [OF inv] by simp
  have i2: "world_inv ?w2" using inv by (simp add: detach_inv emit_inv)
  have v: "visit s args x w = fold (benign_step args) ?body ?w2"
    by (simp add: visit_def enter_def Let_def detach_fields [OF inv])
  show ?thesis
  proof (cases "owner (heap w x) = Some s")
    case False
    then have o: "owner (heap w x) = None" using own by simp
    then have w1: "?w1 = w" by (simp add: detach_foreign)
    have "store (fold (benign_step args) ?body ?w2) = store ?w2"
      using benign_fold_store [OF ben _ i2, of s] o w1 by simp
    then show ?thesis using False w1 v by simp
  next
    case True
    show ?thesis
    proof (cases "once (heap w x)")
      case True
      then have o2: "owner (heap ?w2 x) = None"
        using detach_owner [OF \<open>owner (heap w x) = Some s\<close>] by simp
      have "store (fold (benign_step args) ?body ?w2) = store ?w2"
        using benign_fold_store [OF ben _ i2, of s] o2 by simp
      then show ?thesis using True \<open>owner (heap w x) = Some s\<close> v by (simp add: stays_def)
    next
      case False
      then have s2: "store ?w2 = store w" by simp
      then have o2: "owner (heap ?w2 x) = Some s" using True by (simp add: store_eq)
      have "store (fold (benign_step args) ?body ?w2) =
             (if list_ex (detaches s x) ?body then store (detach s x ?w2) else store ?w2)"
        using benign_fold_store [OF ben _ i2, of s] o2 by simp
      then show ?thesis using False True v s2 detach_store [OF s2 inv, of s x]
        by (simp add: stays_def)
    qed
  qed
qed

lemma visit_visited:
  assumes inv: "world_inv w" and own: "owner (heap w x) = Some s \<or> owner (heap w x) = None"
    and ben: "\<forall>a\<in>set (fn (heap w x)). benign x args a"
  shows "visited w args [x] (visit s args x w)"
proof -
  let ?w1 = "if once (heap w x) then detach s x w else w"
  let ?w2 = "emit (Call x (thisArg (heap ?w1 x)) args) ?w1"
  let ?body = "fn (heap w x)"
  have f: "fn (heap ?w2 x) = ?body" "thisArg (heap ?w1 x) = thisArg (heap w x)"
    using detach_fields [OF inv] by simp_all
  have v: "visit s args x w = fold (benign_step args) ?body ?w2"
    by (simp add: visit_def enter_def Let_def detach_fields [OF inv])
  from benign_fold_events [OF ben, of ?w2 s] obtain es where
    t: "trace (fold (benign_step args) ?body ?w2) = trace ?w2 @ es" and c: "calls es = []"
    and p: "\<forall>p ra. args = VResolve p # ra \<longrightarrow>
            promises (fold (benign_step args) ?body ?w2)
              = settle_if p (CallResolve \<in> set ?body) (promises ?w2)
          \<and> (\<forall>q. settlements q es =
                 (if q = p then settled_if p (CallResolve \<in> set ?body) (promises ?w2) else []))"
    by blast
  have sc: "same_code w (visit s args x w)"
    using visit_store [OF inv own ben] same_code_store same_code_detach [OF inv, of s x]
    by (metis same_code_trans)
  have A: "trace (visit s args x w) = trace w @ (Call x (thisArg (heap w x)) args # es)"
    using t f(2) v by simp
  have B: "calls (Call x (thisArg (heap w x)) args # es) = map (\<lambda>x. Call x (thisArg (heap w x)) args) [x]"
    using c by simp
  have pw: "promises ?w2 = promises w" by simp
  have D: "\<forall>p ra. args = VResolve p # ra \<longrightarrow>
              promises (visit s args x w) = settle_if p (called_back w [x]) (promises w)
            \<and> (\<forall>q. settlements q (Call x (thisArg (heap w x)) args # es) =
                   (if q = p then settled_if p (called_back w [x]) (promises w) else []))"
    using p unfolding v pw by simp
  show ?thesis unfolding visited_def using A B sc D by blast
qed

lemma visit_live:
  assumes inv: "world_inv w" and att: "attached w s (pre @ x # rest)"
    and ben: "\<forall>a\<in>set (fn (heap w x)). benign x args a"
  shows "world_inv (visit s args x w)"
    and "attached (visit s args x w) s (pre @ filter (stays w s) [x] @ rest)"
    and "nxt (heap (visit s args x w) x) = hdp rest None"
proof -
  note m = attached_mid [OF att]
  have st: "store (visit s args x w) = (if \<not> stays w s x then store (detach s x w) else store w)"
    using visit_store [OF inv _ ben, of s] m(1) by simp
  have "world_inv (visit s args x w)
      \<and> attached (visit s args x w) s (pre @ filter (stays w s) [x] @ rest)
      \<and> nxt (heap (visit s args x w) x) = hdp rest None"
  proof (cases "stays w s x")
    case True
    then have e: "store (visit s args x w) = store w" using st by simp
    then have "heap (visit s args x w) = heap w" by (simp add: store_eq)
    then show ?thesis
      using world_inv_store [OF e] attached_store [OF e] inv att m(3) True by simp
  next
    case False
    then have e: "store (visit s args x w) = store (detach s x w)" using st by simp
    then have "heap (visit s args x w) = heap (detach s x w)" by (simp add: store_eq)
    then show ?thesis
      using world_inv_store [OF e] attached_store [OF e] detach_inv [OF inv, of s x]
        detach_attached [OF att] m(3) False
      by (simp add: detach_nxt_eq [OF att])
  qed
  then show "world_inv (visit s args x w)"
    and "attached (visit s args x w) s (pre @ filter (stays w s) [x] @ rest)"
    and "nxt (heap (visit s args x w) x) = hdp rest None" by simp_all
qed

lemma loop_live:
  assumes inv: "world_inv w" and att: "attached w s (pre @ xs @ rest)"
    and ben: "\<forall>x\<in>set xs. \<forall>a\<in>set (fn (heap w x)). benign x args a"
    and fuel: "\<forall>x\<in>set xs. length (fn (heap w x)) + length xs < n"
  shows "dispatch_loop n s args (hdp (xs @ rest) None) w
           = dispatch_loop (n - length xs) s args (hdp rest None) (fold (visit s args) xs w)
       \<and> world_inv (fold (visit s args) xs w)
       \<and> attached (fold (visit s args) xs w) s (pre @ filter (stays w s) xs @ rest)
       \<and> visited w args xs (fold (visit s args) xs w)"
  using assms
proof (induction xs arbitrary: pre w n)
  case Nil
  then show ?case by auto
next
  case (Cons x xs)
  let ?v = "visit s args x w"
  let ?w' = "fold (visit s args) xs ?v"
  obtain m where n: "n = Suc m" using Cons.prems(4) by (cases n) auto
  have att: "attached w s (pre @ x # (xs @ rest))" using Cons.prems(2) by simp
  have own: "owner (heap w x) = Some s" using attached_mid(1) [OF att] .
  then have x: "x < nalloc w" using Cons.prems(1) unfolding world_inv_def by auto
  have benx: "\<forall>a\<in>set (fn (heap w x)). benign x args a" using Cons.prems(3) by simp
  have fx: "length (fn (heap w x)) < m" using Cons.prems(4) n by auto
  have step: "dispatch_loop (Suc m) s args (Some x) w
           = dispatch_loop m s args (nxt (heap ?v x)) ?v"
    using loop_step [OF Cons.prems(1) benx x fx] .
  note live = visit_live [OF Cons.prems(1) att benx]
  have vis: "visited w args [x] ?v"
    using visit_visited [OF Cons.prems(1) _ benx, of s] own by simp
  then have sc: "same_code w ?v" unfolding visited_def by blast
  have ben': "\<forall>y\<in>set xs. \<forall>a\<in>set (fn (heap ?v y)). benign y args a"
    using Cons.prems(3) sc by (simp add: same_code_def)
  have fuel': "\<forall>y\<in>set xs. length (fn (heap ?v y)) + length xs < m"
    using Cons.prems(4) n sc by (auto simp: same_code_def)
  have att': "attached ?v s ((pre @ filter (stays w s) [x]) @ xs @ rest)"
    using live(2) by simp
  from Cons.IH [OF live(1) att' ben' fuel'] have
    r: "dispatch_loop m s args (hdp (xs @ rest) None) ?v
          = dispatch_loop (m - length xs) s args (hdp rest None) ?w'"
    and i: "world_inv ?w'"
    and a: "attached ?w' s ((pre @ filter (stays w s) [x]) @ filter (stays ?v s) xs @ rest)"
    and v: "visited ?v args xs ?w'"
    by blast+
  have "stays ?v s = stays w s"
    using same_code_stays [OF sc] by (simp add: fun_eq_iff)
  then have "filter (stays ?v s) xs = filter (stays w s) xs" by simp
  then have a': "attached ?w' s (pre @ filter (stays w s) (x # xs) @ rest)"
    using a by (cases "stays w s x") simp_all
  have v': "visited w args (x # xs) ?w'" using visited_trans [OF vis v] by simp
  have "dispatch_loop n s args (hdp ((x # xs) @ rest) None) w
          = dispatch_loop (n - length (x # xs)) s args (hdp rest None) ?w'"
    using step r live(3) n by simp
  then show ?case using i a' v' by simp
qed

lemma visit_stale:
  assumes inv: "world_inv w" and own: "owner (heap w x) = None"
    and hd: "head (sigs w s) = None"
    and ben: "\<forall>a\<in>set (fn (heap w x)). benign x args a"
  shows "store (visit s args x w) = store w"
    and "\<exists>es. trace (visit s args x w) = trace w @ es
            \<and> calls es = [Call x (thisArg (heap w x)) args]
            \<and> \<not> list_ex (sees_attached s) es"
proof -
  show "store (visit s args x w) = store w"
    using visit_store [OF inv _ ben, of s] own by simp
  have w1: "detach s x w = w" using own by (simp add: detach_foreign)
  let ?w2 = "emit (Call x (thisArg (heap w x)) args) w"
  have v: "visit s args x w = fold (benign_step args) (fn (heap w x)) ?w2"
    by (simp add: visit_def enter_def Let_def w1)
  from benign_fold_events [OF ben, of ?w2 s] own hd obtain es where
    "trace (fold (benign_step args) (fn (heap w x)) ?w2) = trace ?w2 @ es" "calls es = []"
    "\<not> list_ex (sees_attached s) es"
    by auto
  then have "trace (visit s args x w) = trace w @ (Call x (thisArg (heap w x)) args # es)
            \<and> calls (Call x (thisArg (heap w x)) args # es) = [Call x (thisArg (heap w x)) args]
            \<and> \<not> list_ex (sees_attached s) (Call x (thisArg (heap w x)) args # es)"
    using v by simp
  then show "\<exists>es. trace (visit s args x w) = trace w @ es
            \<and> calls es = [Call x (thisArg (heap w x)) args]
            \<and> \<not> list_ex (sees_attached s) es" by blast
qed

lemma loop_stale:
  assumes inv: "world_inv w" and sg: "seg (heap w) p q ys None"
    and free: "\<forall>y\<in>set ys. owner (heap w y) = None \<and> y < nalloc w"
    and hd: "head (sigs w s) = None"
    and ben: "\<forall>y\<in>set ys. \<forall>a\<in>set (fn (heap w y)). benign y args a"
    and fuel: "length ys < n" "\<forall>y\<in>set ys. length (fn (heap w y)) + length ys < n"
  shows "dispatch_loop n s args p w = Returns (fold (visit s args) ys w)
       \<and> store (fold (visit s args) ys w) = store w
       \<and> (\<exists>es. trace (fold (visit s args) ys w) = trace w @ es
            \<and> calls es = map (\<lambda>y. Call y (thisArg (heap w y)) args) ys
            \<and> \<not> list_ex (sees_attached s) es)"
  using assms
proof (induction ys arbitrary: p q w n)
  case Nil
  then obtain m where "n = Suc m" by (cases n) auto
  then show ?case using Nil by simp
next
  case (Cons y ys)
  let ?v = "visit s args y w"
  let ?w' = "fold (visit s args) ys ?v"
  obtain m where n: "n = Suc m" using Cons.prems(6) by (cases n) auto
  have p: "p = Some y" and sg': "seg (heap w) (nxt (heap w y)) (Some y) ys None"
    using Cons.prems(2) by simp_all
  have own: "owner (heap w y) = None" and y: "y < nalloc w" using Cons.prems(3) by simp_all
  have beny: "\<forall>a\<in>set (fn (heap w y)). benign y args a" using Cons.prems(5) by simp
  have fy: "length (fn (heap w y)) < m" using Cons.prems(7) n by auto
  have step: "dispatch_loop (Suc m) s args (Some y) w
           = dispatch_loop m s args (nxt (heap ?v y)) ?v"
    using loop_step [OF Cons.prems(1) beny y fy] .
  note vs = visit_stale [OF Cons.prems(1) own Cons.prems(4) beny]
  have h: "heap ?v = heap w" "sigs ?v = sigs w" "nalloc ?v = nalloc w"
    using vs(1) by (simp_all add: store_eq)
  from vs(2) obtain es1 where t1: "trace ?v = trace w @ es1"
    and c1: "calls es1 = [Call y (thisArg (heap w y)) args]"
    and o1: "\<not> list_ex (sees_attached s) es1" by blast
  have "dispatch_loop m s args (nxt (heap ?v y)) ?v = Returns ?w' \<and> store ?w' = store ?v
            \<and> (\<exists>es. trace ?w' = trace ?v @ es
            \<and> calls es = map (\<lambda>y. Call y (thisArg (heap ?v y)) args) ys
            \<and> \<not> list_ex (sees_attached s) es)"
  proof (rule Cons.IH)
    show "world_inv ?v" using world_inv_store [OF vs(1)] Cons.prems(1) by simp
    show "seg (heap ?v) (nxt (heap ?v y)) (Some y) ys None" using sg' h by simp
    show "\<forall>y\<in>set ys. owner (heap ?v y) = None \<and> y < nalloc ?v" using Cons.prems(3) h by simp
    show "head (sigs ?v s) = None" using Cons.prems(4) h by simp
    show "\<forall>y\<in>set ys. \<forall>a\<in>set (fn (heap ?v y)). benign y args a" using Cons.prems(5) h by simp
    show "length ys < m" using Cons.prems(6) n by simp
    show "\<forall>y\<in>set ys. length (fn (heap ?v y)) + length ys < m" using Cons.prems(7) n h by auto
  qed
  then obtain es2 where r: "dispatch_loop m s args (nxt (heap ?v y)) ?v = Returns ?w'"
    and s2: "store ?w' = store ?v" and t2: "trace ?w' = trace ?v @ es2"
    and c2: "calls es2 = map (\<lambda>y. Call y (thisArg (heap ?v y)) args) ys"
    and o2: "\<not> list_ex (sees_attached s) es2" by blast
  have "dispatch_loop n s args p w = Returns ?w'" using step r n p by simp
  moreover have "store ?w' = store w" using s2 vs(1) by simp
  moreover have "trace ?w' = trace w @ (es1 @ es2)" using t1 t2 by simp
  moreover have "calls (es1 @ es2) = map (\<lambda>y. Call y (thisArg (heap w y)) args) (y # ys)"
    using c1 c2 h by simp
  moreover have "\<not> list_ex (sees_attached s) (es1 @ es2)" using o1 o2 by simp
  ultimately show ?case by auto
qed

lemma fuel_for_ok:
  assumes "fuel_for w (pre @ xs @ post) \<le> n + length pre"
  shows "\<forall>x\<in>set xs. length (fn (heap w x)) + length xs < n"
proof
  fix x assume "x \<in> set xs"
  then have "length (fn (heap w x)) \<le> sum_list (map (\<lambda>x. length (fn (heap w x))) xs)"
    by (induction xs) auto
  then show "length (fn (heap w x)) + length xs < n"
    using assms by (simp add: fuel_for_def)
qed

text \<open>Dispatch over a list whose handlers are all benign.\<close>

lemma dispatch_benign:
  assumes inv: "world_inv w" and en: "enabled (sigs w s)" and att: "attached w s xs"
    and ben: "\<forall>x\<in>set xs. \<forall>a\<in>set (fn (heap w x)). benign x args a"
    and n: "fuel_for w xs \<le> n"
  shows "Signal_dispatch (dispatch_loop n) s args w = Returns (fold (visit s args) xs w)"
    and "world_inv (fold (visit s args) xs w)"
    and "attached (fold (visit s args) xs w) s (filter (stays w s) xs)"
    and "visited w args xs (fold (visit s args) xs w)"
proof -
  have fuel: "\<forall>x\<in>set xs. length (fn (heap w x)) + length xs < n"
    using fuel_for_ok [of w "[]" xs "[]" n] n by simp
  from loop_live [of w s "[]" xs "[]", OF inv _ ben fuel] att
  have l: "dispatch_loop n s args (hdp xs None) w
           = dispatch_loop (n - length xs) s args None (fold (visit s args) xs w)"
    and rest: "world_inv (fold (visit s args) xs w)"
       "attached (fold (visit s args) xs w) s (filter (stays w s) xs)"
       "visited w args xs (fold (visit s args) xs w)"
    by simp_all
  obtain k where k: "n - length xs = Suc k" using n by (cases "n - length xs") (auto simp: fuel_for_def)
  have h: "head (sigs w s) = hdp xs None" using attached_head [OF att] .
  show "Signal_dispatch (dispatch_loop n) s args w = Returns (fold (visit s args) xs w)"
  proof (cases xs)
    case Nil
    then show ?thesis using en h by (simp add: Signal_dispatch_def)
  next
    case (Cons x xs')
    then show ?thesis using en h l k by (simp add: Signal_dispatch_def)
  qed
  show "world_inv (fold (visit s args) xs w)"
    "attached (fold (visit s args) xs w) s (filter (stays w s) xs)"
    "visited w args xs (fold (visit s args) xs w)" using rest by simp_all
qed

lemma add_attached:
  assumes "world_inv w" "attached w s xs"
  shows "attached (snd (add s f t w)) s (xs @ [nalloc w])" "fst (add s f t w) = nalloc w"
    "attached (snd (once_add s f t w)) s (xs @ [nalloc w])" "fst (once_add s f t w) = nalloc w"
    "nalloc (snd (add s f t w)) = Suc (nalloc w)" "nalloc (snd (once_add s f t w)) = Suc (nalloc w)"
  using attach_new [OF assms, of "new_binding f False t"]
    attach_new [OF assms, of "new_binding f True t"]
  by (simp_all add: add_def once_add_def alloc_def new_binding_def)

lemma add_all_attached:
  assumes "world_inv w" "attached w s xs"
  shows "world_inv (snd (add_all s specs w))
       \<and> attached (snd (add_all s specs w)) s (xs @ fst (add_all s specs w))
       \<and> fst (add_all s specs w) = [nalloc w..<nalloc w + length specs]"
  using assms
proof (induction specs arbitrary: w xs)
  case Nil
  then show ?case by simp
next
  case (Cons spec specs)
  obtain o1 f t where spec: "spec = (o1, f, t)" by (cases spec) auto
  let ?w1 = "snd (if o1 then once_add s f t w else add s f t w)"
  have r: "fst (if o1 then once_add s f t w else add s f t w) = nalloc w"
    using add_attached(2,4) [OF Cons.prems] by simp
  have i1: "world_inv ?w1" using Cons.prems(1) by (simp add: add_inv once_add_inv)
  have a1: "attached ?w1 s (xs @ [nalloc w])" using add_attached(1,3) [OF Cons.prems] by simp
  have n1: "nalloc ?w1 = Suc (nalloc w)" using add_attached(5,6) [OF Cons.prems] by simp
  from Cons.IH [OF i1 a1]
  have A: "world_inv (snd (add_all s specs ?w1))"
    and B: "attached (snd (add_all s specs ?w1)) s ((xs @ [nalloc w]) @ fst (add_all s specs ?w1))"
    and C: "fst (add_all s specs ?w1) = [nalloc ?w1..<nalloc ?w1 + length specs]"
    by blast+
  have e: "add_all s (spec # specs) w
             = (nalloc w # fst (add_all s specs ?w1), snd (add_all s specs ?w1))"
    using spec r by (cases "if o1 then once_add s f t w else add s f t w")
      (simp split: prod.splits)
  have "[nalloc w..<nalloc w + length (spec # specs)]
          = nalloc w # [Suc (nalloc w)..<nalloc w + length (spec # specs)]"
    by (rule upt_conv_Cons) simp
  then have C': "nalloc w # fst (add_all s specs ?w1) = [nalloc w..<nalloc w + length (spec # specs)]"
    unfolding C n1 by (simp del: upt_Suc)
  show ?case unfolding e using A B C' by simp
qed

lemma visited_calls:
  "visited w args xs w' \<Longrightarrow>
   \<exists>es. trace w' = trace w @ es \<and> calls es = map (\<lambda>x. Call x (thisArg (heap w x)) args) xs"
  unfolding visited_def by blast

text \<open>
  C6. After a sequence of \<open>add\<close> and \<open>once\<close> calls on a signal whose list was \<open>xs\<close>,
  \<open>handlers\<close> returns \<open>xs\<close> followed by the new bindings in the order of the calls (which
  is the order of their creation). If the signal is enabled and the handlers are benign, a
  dispatch returns, given enough steps, and has invoked the handlers of exactly these
  bindings, in that order, each with its \<open>this\<close> value and the arguments of the dispatch.
\<close>

theorem add_order_is_dispatch_order:
  assumes "world_inv w" and "attached w s xs"
  shows "handlers s (snd (add_all s specs w)) = Some (xs @ fst (add_all s specs w))
    \<and> fst (add_all s specs w) = [nalloc w..<nalloc w + length specs]
    \<and> (enabled (sigs (snd (add_all s specs w)) s)
        \<and> (\<forall>x\<in>set (xs @ fst (add_all s specs w)).
              \<forall>a\<in>set (fn (heap (snd (add_all s specs w)) x)). benign x args a)
       \<longrightarrow> (\<exists>w' N. (\<forall>n\<ge>N. signal_dispatch n s args (snd (add_all s specs w)) = Returns w')
              \<and> (\<exists>es. trace w' = trace (snd (add_all s specs w)) @ es
                    \<and> calls es = map (\<lambda>x. Call x (thisArg (heap (snd (add_all s specs w)) x)) args)
                                   (xs @ fst (add_all s specs w)))))"
proof -
  let ?w2 = "snd (add_all s specs w)"
  let ?rs = "fst (add_all s specs w)"
  from add_all_attached [OF assms, of specs]
  have inv: "world_inv ?w2" and att: "attached ?w2 s (xs @ ?rs)"
    and rs: "?rs = [nalloc w..<nalloc w + length specs]" by blast+
  have "\<exists>w' N. (\<forall>n\<ge>N. signal_dispatch n s args ?w2 = Returns w')
              \<and> (\<exists>es. trace w' = trace ?w2 @ es
                    \<and> calls es = map (\<lambda>x. Call x (thisArg (heap ?w2 x)) args) (xs @ ?rs))"
    if en: "enabled (sigs ?w2 s)"
      and ben: "\<forall>x\<in>set (xs @ ?rs). \<forall>a\<in>set (fn (heap ?w2 x)). benign x args a"
  proof -
    let ?w' = "fold (visit s args) (xs @ ?rs) ?w2"
    have d: "\<forall>n\<ge>fuel_for ?w2 (xs @ ?rs). signal_dispatch n s args ?w2 = Returns ?w'"
      using dispatch_benign(1) [OF inv en att ben] by (simp add: signal_dispatch_def)
    have "visited ?w2 args (xs @ ?rs) ?w'"
      using dispatch_benign(4) [OF inv en att ben order_refl] .
    from visited_calls [OF this] obtain es where
      es: "trace ?w' = trace ?w2 @ es"
        "calls es = map (\<lambda>x. Call x (thisArg (heap ?w2 x)) args) (xs @ ?rs)" by blast
    show ?thesis
    proof (intro exI conjI)
      show "\<forall>n\<ge>fuel_for ?w2 (xs @ ?rs). signal_dispatch n s args ?w2 = Returns ?w'" by (rule d)
      show "trace ?w' = trace ?w2 @ es" by (rule es(1))
      show "calls es = map (\<lambda>x. Call x (thisArg (heap ?w2 x)) args) (xs @ ?rs)" by (rule es(2))
    qed
  qed
  then show ?thesis
    by (intro conjI impI) (use handlers_attached [OF att] rs in simp_all)
qed

text \<open>
  C9. On an enabled signal with benign handlers, where the handler of binding \<open>r\<close> detaches
  \<open>r\<close> itself, a dispatch returns, given enough steps; it has invoked the handlers of all
  bindings of the list in order, those after \<open>r\<close> included; afterwards \<open>r\<close> is no longer
  attached and the list holds the bindings that are neither once-bindings nor detached by
  their own handler.
\<close>

theorem self_detach_keeps_traversal:
  assumes inv: "world_inv w" and en: "enabled (sigs w s)"
    and att: "attached w s (pre @ r # post)"
    and ben: "\<forall>x\<in>set (pre @ r # post). \<forall>a\<in>set (fn (heap w x)). benign x args a"
    and self: "list_ex (detaches s r) (fn (heap w r))"
  shows "\<exists>w' N. (\<forall>n\<ge>N. signal_dispatch n s args w = Returns w')
      \<and> (\<exists>es. trace w' = trace w @ es
            \<and> calls es = map (\<lambda>x. Call x (thisArg (heap w x)) args) (pre @ r # post))
      \<and> \<not> has s r w'
      \<and> handlers s w' = Some (filter (stays w s) (pre @ post))"
proof -
  let ?xs = "pre @ r # post"
  let ?w' = "fold (visit s args) ?xs w"
  have d: "\<forall>n\<ge>fuel_for w ?xs. signal_dispatch n s args w = Returns ?w'"
    using dispatch_benign(1) [OF inv en att ben] by (simp add: signal_dispatch_def)
  have v: "visited w args ?xs ?w'"
    using dispatch_benign(4) [OF inv en att ben order_refl] .
  have "\<not> stays w s r" using self by (simp add: stays_def)
  then have f: "filter (stays w s) ?xs = filter (stays w s) (pre @ post)" by simp
  have a: "attached ?w' s (filter (stays w s) (pre @ post))"
    using dispatch_benign(3) [OF inv en att ben order_refl] f by simp
  have "r \<notin> set (pre @ post)" using attached_mid(6,7) [OF att] by simp
  then have h: "\<not> has s r ?w'" using attached_owner [OF a, of r] by (simp add: has_def)
  from visited_calls [OF v] obtain es where
    es: "trace ?w' = trace w @ es"
      "calls es = map (\<lambda>x. Call x (thisArg (heap w x)) args) ?xs" by blast
  show ?thesis
  proof (intro exI conjI)
    show "\<forall>n\<ge>fuel_for w ?xs. signal_dispatch n s args w = Returns ?w'" by (rule d)
    show "trace ?w' = trace w @ es" by (rule es(1))
    show "calls es = map (\<lambda>x. Call x (thisArg (heap w x)) args) ?xs" by (rule es(2))
    show "\<not> has s r ?w'" by (rule h)
    show "handlers s ?w' = Some (filter (stays w s) (pre @ post))"
      by (rule handlers_attached [OF a])
  qed
qed

lemma reach:
  assumes inv: "world_inv w" and en: "enabled (sigs w s)"
    and att: "attached w s (pre @ r # post)"
    and ben: "\<forall>x\<in>set pre. \<forall>a\<in>set (fn (heap w x)). benign x args a"
    and n: "fuel_for w (pre @ r # post) \<le> n"
  shows "signal_dispatch n s args w
           = dispatch_loop (n - length pre) s args (Some r) (fold (visit s args) pre w)"
    and "world_inv (fold (visit s args) pre w)"
    and "attached (fold (visit s args) pre w) s (filter (stays w s) pre @ r # post)"
    and "visited w args pre (fold (visit s args) pre w)"
proof -
  have fuel: "\<forall>x\<in>set pre. length (fn (heap w x)) + length pre < n"
    using fuel_for_ok [of w "[]" pre "r # post" n] n by simp
  from loop_live [of w s "[]" pre "r # post", OF inv _ ben fuel] att
  have l: "dispatch_loop n s args (hdp (pre @ r # post) None) w
           = dispatch_loop (n - length pre) s args (Some r) (fold (visit s args) pre w)"
    and rest: "world_inv (fold (visit s args) pre w)"
       "attached (fold (visit s args) pre w) s (filter (stays w s) pre @ r # post)"
       "visited w args pre (fold (visit s args) pre w)"
    by simp_all
  have h: "head (sigs w s) = hdp (pre @ r # post) None" using attached_head [OF att] .
  then obtain y where y: "head (sigs w s) = Some y" by (cases pre) auto
  show "signal_dispatch n s args w
           = dispatch_loop (n - length pre) s args (Some r) (fold (visit s args) pre w)"
    using en y l h by (simp add: signal_dispatch_def Signal_dispatch_def)
  show "world_inv (fold (visit s args) pre w)"
    "attached (fold (visit s args) pre w) s (filter (stays w s) pre @ r # post)"
    "visited w args pre (fold (visit s args) pre w)" using rest by simp_all
qed

lemma fuel_for_mid:
  assumes "fuel_for w (pre @ r # post) \<le> n"
  shows "length (fn (heap w r)) + length post + 2 < n - length pre"
  using assms by (simp add: fuel_for_def)

lemma dispatch_loop_enter:
  "dispatch_loop (Suc m) s args (Some x) w =
     (case exec m args (fn (heap (enter s args x w) x)) (enter s args x w) of
        Returns w3 \<Rightarrow> dispatch_loop m s args (nxt (heap w3 x)) w3
      | Throws e w3 \<Rightarrow> Throws e w3
      | Diverges \<Rightarrow> Diverges)"
  by (simp add: enter_def Let_def)

lemma enter_props:
  assumes inv: "world_inv w"
  shows "world_inv (enter s args x w)"
    and "same_code w (enter s args x w)"
    and "trace (enter s args x w) = trace w @ [Call x (thisArg (heap w x)) args]"
    and "nalloc (enter s args x w) = nalloc w"
    and "promises (enter s args x w) = promises w"
    and "store (enter s args x w) = store (if once (heap w x) then detach s x w else w)"
  using inv detach_fields [OF inv, of s x]
  by (simp_all add: enter_def Let_def detach_inv emit_inv same_code_def)

text \<open>
  C8. On an enabled signal, when the handler of binding \<open>r\<close> throws (after benign
  statements, the handlers before \<open>r\<close> being benign), \<open>Signal.dispatch\<close> ends with that
  exception, and the handlers invoked are those of the bindings up to \<open>r\<close>: no binding
  after \<open>r\<close> is invoked, whatever its handler is.
\<close>

theorem handler_exception_propagates:
  assumes inv: "world_inv w" and en: "enabled (sigs w s)"
    and att: "attached w s (pre @ r # post)"
    and ben: "\<forall>x\<in>set pre. \<forall>a\<in>set (fn (heap w x)). benign x args a"
    and body: "fn (heap w r) = b1 @ Throw # b2"
    and b1: "\<forall>a\<in>set b1. benign r args a"
  shows "\<exists>w' N. (\<forall>n\<ge>N. signal_dispatch n s args w = Throws HandlerError w')
      \<and> (\<exists>es. trace w' = trace w @ es
            \<and> calls es = map (\<lambda>x. Call x (thisArg (heap w x)) args) (pre @ [r]))"
proof -
  let ?w1 = "fold (visit s args) pre w"
  let ?w2 = "enter s args r ?w1"
  let ?w3 = "fold (benign_step args) b1 ?w2"
  let ?N = "fuel_for w (pre @ r # post)"
  note rc = reach [OF inv en att ben order_refl]
  note ep = enter_props [OF rc(2), of s args r]
  have sc: "same_code w ?w1" using rc(4) unfolding visited_def by blast
  have f2: "fn (heap ?w2 r) = b1 @ Throw # b2"
    using ep(2) sc body by (simp add: same_code_def)
  have th: "thisArg (heap ?w1 r) = thisArg (heap w r)" using sc by (simp add: same_code_def)
  have "owner (heap ?w1 r) = Some s" using attached_mid(1) [OF rc(3)] .
  then have r2: "r < nalloc ?w2" using rc(2) ep(4) unfolding world_inv_def by auto
  have run: "signal_dispatch n s args w = Throws HandlerError ?w3" if n: "?N \<le> n" for n
  proof -
    from fuel_for_mid [OF n] obtain m where m: "n - length pre = Suc m" "length b1 < m"
      using body by (cases "n - length pre") auto
    then obtain k where k: "m - length b1 = Suc k" by (cases "m - length b1") auto
    have "exec m args (b1 @ Throw # b2) ?w2 = exec (m - length b1) args (Throw # b2) ?w3"
      using exec_benign [OF b1 r2, of m] m(2) by simp
    then have "exec m args (fn (heap ?w2 r)) ?w2 = Throws HandlerError ?w3"
      unfolding f2 k by simp
    then have "dispatch_loop (Suc m) s args (Some r) ?w1 = Throws HandlerError ?w3"
      by (simp add: dispatch_loop_enter del: dispatch_loop.simps)
    then show ?thesis using reach(1) [OF inv en att ben n] m(1) by simp
  qed
  from visited_calls [OF rc(4)] obtain es1 where
    es1: "trace ?w1 = trace w @ es1" "calls es1 = map (\<lambda>x. Call x (thisArg (heap w x)) args) pre"
    by blast
  from benign_fold_events [OF b1, of ?w2 s] obtain es2 where
    es2: "trace ?w3 = trace ?w2 @ es2" "calls es2 = []" by blast
  have t: "trace ?w3 = trace w @ (es1 @ Call r (thisArg (heap w r)) args # es2)"
    using es1(1) es2(1) ep(3) th by simp
  have c: "calls (es1 @ Call r (thisArg (heap w r)) args # es2)
             = map (\<lambda>x. Call x (thisArg (heap w x)) args) (pre @ [r])"
    using es1(2) es2(2) by simp
  show ?thesis
  proof (intro exI conjI)
    show "\<forall>n\<ge>?N. signal_dispatch n s args w = Throws HandlerError ?w3" using run by blast
    show "trace ?w3 = trace w @ (es1 @ Call r (thisArg (heap w r)) args # es2)" by (rule t)
    show "calls (es1 @ Call r (thisArg (heap w r)) args # es2)
             = map (\<lambda>x. Call x (thisArg (heap w x)) args) (pre @ [r])" by (rule c)
  qed
qed

lemma same_code_fuel: "same_code w w' \<Longrightarrow> fuel_for w' xs = fuel_for w xs"
  by (simp add: fuel_for_def same_code_def)

text \<open>
  C5. On an enabled \<open>AsyncSignal\<close> with benign handlers, \<open>dispatch\<close> returns, given enough
  steps, having invoked every handler of the list in order with the \<open>resolve\<close> function of
  its new promise followed by the arguments of the dispatch. When the loop has ended, the
  promise is fulfilled if some handler called \<open>resolve\<close> and pending otherwise, and it
  was settled once in the first case, however many handlers called \<open>resolve\<close>.
\<close>

theorem async_dispatch_resolves_once:
  assumes inv: "world_inv w" and en: "enabled (sigs w s)" and att: "attached w s xs"
    and ben: "\<forall>x\<in>set xs. \<forall>a\<in>set (fn (heap w x)).
                benign x (VResolve (length (promises w)) # args) a"
  shows "\<exists>w' N. (\<forall>n\<ge>N. async_dispatch n s args w = Returns w')
      \<and> (\<exists>es. trace w' = trace w @ es
            \<and> calls es = map (\<lambda>x. Call x (thisArg (heap w x))
                                      (VResolve (length (promises w)) # args)) xs
            \<and> settlements (length (promises w)) es
                = (if called_back w xs then [Settled (length (promises w)) Fulfilled] else []))
      \<and> promises w' = promises w @ [if called_back w xs then Fulfilled else Pending]"
proof -
  let ?p = "length (promises w)"
  let ?args = "VResolve ?p # args"
  let ?w1 = "snd (new_promise w)"
  let ?w' = "fold (visit s ?args) xs ?w1"
  have st: "store ?w1 = store w" by (simp add: store_eq)
  have inv1: "world_inv ?w1" using world_inv_store [OF st] inv by simp
  have att1: "attached ?w1 s xs" using attached_store [OF st] att by simp
  have en1: "enabled (sigs ?w1 s)" using en by simp
  have ben1: "\<forall>x\<in>set xs. \<forall>a\<in>set (fn (heap ?w1 x)). benign x ?args a" using ben by simp
  have ff: "fuel_for ?w1 xs = fuel_for w xs" by (simp add: fuel_for_def)
  have cb: "called_back ?w1 xs = called_back w xs" by (simp add: called_back_def)
  have run: "async_dispatch n s args w = Returns ?w'" if n: "fuel_for w xs \<le> n" for n
  proof -
    have "Signal_dispatch (dispatch_loop n) s ?args ?w1 = Returns ?w'"
      using dispatch_benign(1) [OF inv1 en1 att1 ben1] n ff by simp
    then show ?thesis using en
      by (simp add: async_dispatch_def AsyncSignal_dispatch_def new_promise_def)
  qed
  have "visited ?w1 ?args xs ?w'"
    using dispatch_benign(4) [OF inv1 en1 att1 ben1 order_refl] .
  then obtain es where t: "trace ?w' = trace ?w1 @ es"
    and c: "calls es = map (\<lambda>x. Call x (thisArg (heap ?w1 x)) ?args) xs"
    and p: "promises ?w' = settle_if ?p (called_back ?w1 xs) (promises ?w1)"
    and q: "settlements ?p es = settled_if ?p (called_back ?w1 xs) (promises ?w1)"
    unfolding visited_def by auto
  show ?thesis
  proof (intro exI conjI)
    show "\<forall>n\<ge>fuel_for w xs. async_dispatch n s args w = Returns ?w'" using run by blast
    show "trace ?w' = trace w @ es" using t by simp
    show "calls es = map (\<lambda>x. Call x (thisArg (heap w x)) ?args) xs" using c by simp
    show "settlements ?p es = (if called_back w xs then [Settled ?p Fulfilled] else [])"
      using q by (simp add: cb settled_if_def)
    show "promises ?w' = promises w @ [if called_back w xs then Fulfilled else Pending]"
      using p by (simp add: cb settle_if_def)
  qed
qed

text \<open>
  C10. On an enabled signal whose other handlers are benign, when the handler of binding
  \<open>r\<close> calls \<open>detachAll\<close> on the signal, a dispatch returns, given enough steps; the
  handlers of the bindings after \<open>r\<close> are still invoked, in order, and every observation
  they make (\<open>has\<close> of their own binding, \<open>hasAny\<close>, the result of \<open>Binding.detach\<close>)
  finds nothing attached; afterwards the list is empty and no binding of the original list
  is owned by the signal.
\<close>

theorem detachAll_during_dispatch:
  assumes inv: "world_inv w" and en: "enabled (sigs w s)"
    and att: "attached w s (pre @ r # post)"
    and ben: "\<forall>x\<in>set (pre @ post). \<forall>a\<in>set (fn (heap w x)). benign x args a"
    and body: "fn (heap w r) = [DetachAll s]"
  shows "\<exists>w' N. (\<forall>n\<ge>N. signal_dispatch n s args w = Returns w')
      \<and> (\<exists>es1 es2. trace w' = trace w @ es1 @ Call r (thisArg (heap w r)) args # es2
            \<and> calls es1 = map (\<lambda>x. Call x (thisArg (heap w x)) args) pre
            \<and> calls es2 = map (\<lambda>x. Call x (thisArg (heap w x)) args) post
            \<and> \<not> list_ex (sees_attached s) es2)
      \<and> \<not> hasAny s w'
      \<and> (\<forall>x\<in>set (pre @ r # post). \<not> has s x w')"
proof -
  let ?w1 = "fold (visit s args) pre w"
  let ?w2 = "enter s args r ?w1"
  let ?P = "filter (stays w s) pre"
  let ?L = "if once (heap ?w1 r) then ?P @ post else ?P @ r # post"
  let ?N = "fuel_for w (pre @ r # post)"
  have benp: "\<forall>x\<in>set pre. \<forall>a\<in>set (fn (heap w x)). benign x args a" using ben by simp
  note rc = reach [OF inv en att benp order_refl]
  note ep = enter_props [OF rc(2), of s args r]
  note m1 = attached_mid [OF rc(3)]
  have sc1: "same_code w ?w1" using rc(4) unfolding visited_def by blast
  have sc2: "same_code w ?w2" using same_code_trans [OF sc1 ep(2)] .
  have f2: "fn (heap ?w2 r) = [DetachAll s]" using sc2 body by (simp add: same_code_def)
  \<comment> \<open>the list of the signal when the handler of \<open>r\<close> starts\<close>
  have attL: "attached ?w2 s ?L \<and> nxt (heap ?w2 r) = hdp post None
      \<and> (\<exists>q. seg (heap ?w2) (hdp post None) q post None)"
  proof (cases "once (heap ?w1 r)")
    case True
    then have e: "store ?w2 = store (detach s r ?w1)" using ep(6) by simp
    then have h: "heap ?w2 = heap (detach s r ?w1)" by (simp add: store_eq)
    have a: "attached (detach s r ?w1) s (?P @ post)" using detach_attached [OF rc(3)] .
    then have "seg (heap (detach s r ?w1)) (hdp post None) (lastp None ?P) post None"
      by (simp add: attached_def seg_append)
    then show ?thesis
      using attached_store [OF e] a True h m1(3) by (auto simp: detach_nxt_eq [OF rc(3)])
  next
    case False
    then have e: "store ?w2 = store ?w1" using ep(6) by simp
    then have h: "heap ?w2 = heap ?w1" by (simp add: store_eq)
    have "seg (heap ?w1) (hdp post None) (Some r) post None"
      using rc(3) by (simp add: attached_def seg_mid)
    then show ?thesis
      using attached_store [OF e] rc(3) False h m1(3) by auto
  qed
  then obtain q where aL: "attached ?w2 s ?L" and nx2: "nxt (heap ?w2 r) = hdp post None"
    and sg2: "seg (heap ?w2) (hdp post None) q post None" by blast
  from detachAll_result [OF aL] obtain w3 where
    d: "detachAll s ?w2 = Some w3"
    and h3: "heap w3 = (\<lambda>y. if y \<in> set ?L then (heap ?w2 y)\<lparr>owner := None\<rparr> else heap ?w2 y)"
    and s3: "sigs w3 = (sigs ?w2)(s := (sigs ?w2 s)\<lparr>head := None, tail := None\<rparr>)"
    and n3: "nalloc w3 = nalloc ?w2" and t3: "trace w3 = trace ?w2"
    by blast
  let ?w' = "fold (visit s args) post w3"
  have inv3: "world_inv w3" using detachAll_inv [OF ep(1) d] .
  have own3: "owner (heap w3 x) \<noteq> Some s" for x
    using attached_owner [OF aL, of x] by (simp add: h3)
  have sc3: "same_code w w3" using sc2 by (simp add: same_code_def h3)
  have postL: "set post \<subseteq> set ?L" by auto
  have free: "\<forall>y\<in>set post. owner (heap w3 y) = None \<and> y < nalloc w3"
  proof
    fix y assume y: "y \<in> set post"
    then have yL: "y \<in> set ?L" using postL by blast
    then have "owner (heap ?w2 y) = Some s" using attached_owner [OF aL, of y] by simp
    then have "y < nalloc ?w2" using ep(1) unfolding world_inv_def by auto
    then show "owner (heap w3 y) = None \<and> y < nalloc w3" using yL n3 by (simp add: h3)
  qed
  have hd3: "head (sigs w3 s) = None" by (simp add: s3)
  have nx3: "nxt (heap w3 r) = hdp post None" using nx2 by (simp add: h3)
  have "seg (heap w3) (hdp post None) q post None = seg (heap ?w2) (hdp post None) q post None"
    by (rule seg_cong) (simp add: h3)
  then have sg3: "seg (heap w3) (hdp post None) q post None" using sg2 by simp
  have ben3: "\<forall>y\<in>set post. \<forall>a\<in>set (fn (heap w3 y)). benign y args a"
    using ben sc3 by (simp add: same_code_def)
  have run: "signal_dispatch n s args w = Returns ?w'" if n: "?N \<le> n" for n
  proof -
    have "3 \<le> n - length pre" using fuel_for_mid [OF n] by simp
    then obtain k where "n - length pre = 3 + k" using le_Suc_ex by blast
    then have m: "n - length pre = Suc (Suc (Suc k))" by simp
    let ?m = "Suc (Suc k)"
    have "do_action (dispatch_loop (Suc k)) args (DetachAll s) ?w2 = Returns w3"
      using d by simp
    then have "exec ?m args (fn (heap ?w2 r)) ?w2 = Returns w3"
      unfolding f2 by simp
    then have step: "dispatch_loop (Suc ?m) s args (Some r) ?w1
                       = dispatch_loop ?m s args (hdp post None) w3"
      using nx3 by (simp add: dispatch_loop_enter del: dispatch_loop.simps exec.simps)
    have "fuel_for w ((pre @ [r]) @ post @ []) \<le> ?m + length (pre @ [r])"
      using n m by simp
    from fuel_for_ok [OF this]
    have fuel: "\<forall>y\<in>set post. length (fn (heap w3 y)) + length post < ?m"
      using sc3 by (simp add: same_code_def)
    have lp: "length post < ?m" using fuel_for_mid [OF n] m by simp
    from loop_stale [OF inv3 sg3 free hd3 ben3 lp fuel]
    have "dispatch_loop ?m s args (hdp post None) w3 = Returns ?w'" by blast
    then show ?thesis using reach(1) [OF inv en att benp n] m step by simp
  qed
  have big: "length post < fuel_for w3 post"
    "\<forall>y\<in>set post. length (fn (heap w3 y)) + length post < fuel_for w3 post"
    using fuel_for_ok [of w3 "[]" post "[]" "fuel_for w3 post"]
    by (simp_all add: fuel_for_def)
  from loop_stale [OF inv3 sg3 free hd3 ben3 big] obtain es2 where
    st': "store ?w' = store w3" and t': "trace ?w' = trace w3 @ es2"
    and c2: "calls es2 = map (\<lambda>y. Call y (thisArg (heap w3 y)) args) post"
    and o2: "\<not> list_ex (sees_attached s) es2" by blast
  from visited_calls [OF rc(4)] obtain es1 where
    es1: "trace ?w1 = trace w @ es1" "calls es1 = map (\<lambda>x. Call x (thisArg (heap w x)) args) pre"
    by blast
  have th: "thisArg (heap ?w1 r) = thisArg (heap w r)" "thisArg (heap w3 y) = thisArg (heap w y)" for y
    using sc1 sc3 by (simp_all add: same_code_def)
  have h': "heap ?w' = heap w3" "sigs ?w' = sigs w3" using st' by (simp_all add: store_eq)
  show ?thesis
  proof (intro exI conjI)
    show "\<forall>n\<ge>?N. signal_dispatch n s args w = Returns ?w'" using run by blast
    show "trace ?w' = trace w @ es1 @ Call r (thisArg (heap w r)) args # es2"
      using t' t3 ep(3) es1(1) th(1) by simp
    show "calls es1 = map (\<lambda>x. Call x (thisArg (heap w x)) args) pre" by (rule es1(2))
    show "calls es2 = map (\<lambda>x. Call x (thisArg (heap w x)) args) post" using c2 th(2) by simp
    show "\<not> list_ex (sees_attached s) es2" by (rule o2)
    show "\<not> hasAny s ?w'" using hd3 h' by (simp add: hasAny_def)
    show "\<forall>x\<in>set (pre @ r # post). \<not> has s x ?w'" using own3 h' by (simp add: has_def)
  qed
qed

lemma addSignalBinding_code:
  "fn (heap (addSignalBinding s n w) r) = fn (heap w r)"
  "once (heap (addSignalBinding s n w) r) = once (heap w r)"
  "thisArg (heap (addSignalBinding s n w) r) = thisArg (heap w r)"
  "enabled (sigs (addSignalBinding s n w) s') = enabled (sigs w s')"
  "is_async (sigs (addSignalBinding s n w) s') = is_async (sigs w s')"
  "trace (addSignalBinding s n w) = trace w"
  "promises (addSignalBinding s n w) = promises w"
  by (simp_all add: addSignalBinding_def Let_def split: option.splits)

lemma add_code:
  "fn (heap (snd (if o1 then once_add s f t w else add s f t w)) r)
     = (if r = nalloc w then f else fn (heap w r))"
  "once (heap (snd (if o1 then once_add s f t w else add s f t w)) r)
     = (if r = nalloc w then o1 else once (heap w r))"
  "thisArg (heap (snd (if o1 then once_add s f t w else add s f t w)) r)
     = (if r = nalloc w then t else thisArg (heap w r))"
  "enabled (sigs (snd (if o1 then once_add s f t w else add s f t w)) s')
     = enabled (sigs w s')"
  "is_async (sigs (snd (if o1 then once_add s f t w else add s f t w)) s')
     = is_async (sigs w s')"
  "trace (snd (if o1 then once_add s f t w else add s f t w)) = trace w"
  "promises (snd (if o1 then once_add s f t w else add s f t w)) = promises w"
  "nalloc (snd (if o1 then once_add s f t w else add s f t w)) = Suc (nalloc w)"
  by (simp_all add: add_def once_add_def alloc_def new_binding_def addSignalBinding_code)

lemmas once_add_code = add_code [of True, simplified]

lemmas plain_add_code = add_code [of False, simplified]

lemma add_all_Cons:
  "add_all s ((o1, f, t) # specs) w =
     (fst (if o1 then once_add s f t w else add s f t w)
        # fst (add_all s specs (snd (if o1 then once_add s f t w else add s f t w))),
      snd (add_all s specs (snd (if o1 then once_add s f t w else add s f t w))))"
  by (simp split: prod.splits)

lemma add_all_snd_Cons:
  "snd (add_all s ((o1, f, t) # specs) w)
     = snd (add_all s specs (snd (if o1 then once_add s f t w else add s f t w)))"
  unfolding add_all_Cons by simp

lemma add_all_fn:
  "fn (heap (snd (add_all s specs w)) r)
     = (if nalloc w \<le> r \<and> r < nalloc w + length specs
        then fst (snd (specs ! (r - nalloc w))) else fn (heap w r))"
proof (induction specs arbitrary: w)
  case Nil
  show ?case by auto
next
  case (Cons spec specs)
  obtain o1 f t where spec: "spec = (o1, f, t)" by (cases spec) auto
  show ?case unfolding spec add_all_snd_Cons Cons.IH add_code
    by (auto simp: nth_Cons' Suc_diff_le)
qed

lemma add_all_once:
  "once (heap (snd (add_all s specs w)) r)
     = (if nalloc w \<le> r \<and> r < nalloc w + length specs
        then fst (specs ! (r - nalloc w)) else once (heap w r))"
proof (induction specs arbitrary: w)
  case Nil
  show ?case by auto
next
  case (Cons spec specs)
  obtain o1 f t where spec: "spec = (o1, f, t)" by (cases spec) auto
  show ?case unfolding spec add_all_snd_Cons Cons.IH add_code
    by (auto simp: nth_Cons' Suc_diff_le)
qed

lemma add_all_thisArg:
  "thisArg (heap (snd (add_all s specs w)) r)
     = (if nalloc w \<le> r \<and> r < nalloc w + length specs
        then snd (snd (specs ! (r - nalloc w))) else thisArg (heap w r))"
proof (induction specs arbitrary: w)
  case Nil
  show ?case by auto
next
  case (Cons spec specs)
  obtain o1 f t where spec: "spec = (o1, f, t)" by (cases spec) auto
  show ?case unfolding spec add_all_snd_Cons Cons.IH add_code
    by (auto simp: nth_Cons' Suc_diff_le)
qed

lemma add_all_frame:
  "enabled (sigs (snd (add_all s specs w)) s') = enabled (sigs w s')
   \<and> is_async (sigs (snd (add_all s specs w)) s') = is_async (sigs w s')
   \<and> trace (snd (add_all s specs w)) = trace w
   \<and> promises (snd (add_all s specs w)) = promises w"
proof (induction specs arbitrary: w)
  case Nil
  show ?case by simp
next
  case (Cons spec specs)
  obtain o1 f t where spec: "spec = (o1, f, t)" by (cases spec) auto
  show ?case unfolding spec add_all_snd_Cons
    by (cases o1) (simp_all add: Cons.IH once_add_code plain_add_code)
qed

lemma attached_init: "attached (init_world a) s []"
  by (simp add: attached_def init_world_def new_binding_def)

lemma init_add_all:
  "world_inv (snd (add_all s specs (init_world a)))"
  "attached (snd (add_all s specs (init_world a))) s [0..<length specs]"
proof -
  note r = add_all_attached [where w = "init_world a" and s = s and xs = "[]"
      and specs = specs, OF init_inv attached_init]
  have n0: "nalloc (init_world a) = 0" by (simp add: init_world_def)
  from r show "world_inv (snd (add_all s specs (init_world a)))" by blast
  from r have "attached (snd (add_all s specs (init_world a))) s
                 ([] @ fst (add_all s specs (init_world a)))"
    and "fst (add_all s specs (init_world a)) = [0..<0 + length specs]"
    unfolding n0 by blast+
  then show "attached (snd (add_all s specs (init_world a))) s [0..<length specs]"
    by simp
qed

lemma demo_inv: "world_inv (demo specs)" "attached (demo specs) 0 [0..<length specs]"
  unfolding demo_def sync_world_def by (rule init_add_all)+

lemma demo_async_inv: "world_inv (demo_async specs)" "attached (demo_async specs) 0 [0..<length specs]"
  unfolding demo_async_def async_world_def by (rule init_add_all)+

lemmas demo_defs = demo_def demo_async_def add_all_fn add_all_once add_all_thisArg add_all_frame
  sync_world_def async_world_def init_world_def new_binding_def

lemma self_detacher_eval:
  "world_inv self_detacher" "attached self_detacher 0 [0, Suc 0, 2]"
  "enabled (sigs self_detacher 0)" "trace self_detacher = []"
  "fn (heap self_detacher 0) = []" "fn (heap self_detacher (Suc 0)) = [BindingDetach (Suc 0)]"
  "fn (heap self_detacher 2) = []"
  "once (heap self_detacher 0) = False" "once (heap self_detacher (Suc 0)) = False"
  "once (heap self_detacher 2) = False"
  "thisArg (heap self_detacher 0) = VNull" "thisArg (heap self_detacher (Suc 0)) = VNull"
  "thisArg (heap self_detacher 2) = VNull"
proof -
  show "world_inv self_detacher" unfolding self_detacher_def by (rule demo_inv)
  show "attached self_detacher 0 [0, Suc 0, 2]"
    using demo_inv(2) [of "[(False, [], VNull), (False, [BindingDetach 1], VNull), (False, [], VNull)]"]
    by (simp add: self_detacher_def eval_nat_numeral)
qed (simp_all add: self_detacher_def demo_defs del: add_all.simps)

theorem self_detach_keeps_traversal_witness:
  "world_inv self_detacher \<and> enabled (sigs self_detacher 0)
   \<and> attached self_detacher 0 ([0] @ 1 # [2])
   \<and> list_all (\<lambda>x. list_all (benign x []) (fn (heap self_detacher x))) ([0] @ 1 # [2])
   \<and> list_ex (detaches 0 1) (fn (heap self_detacher 1))
   \<and> (\<exists>w' N. (\<forall>n\<ge>N. signal_dispatch n 0 [] self_detacher = Returns w')
        \<and> (\<exists>es. trace w' = trace self_detacher @ es
              \<and> calls es = [Call 0 VNull [], Call 1 VNull [], Call 2 VNull []])
        \<and> \<not> has 0 1 w'
        \<and> handlers 0 w' = Some [0, 2])"
proof -
  note e = self_detacher_eval
  have att: "attached self_detacher 0 ([0] @ 1 # [2])" using e(2) by simp
  have ben: "\<forall>x\<in>set ([0] @ 1 # [2]). \<forall>a\<in>set (fn (heap self_detacher x)). benign x [] a"
    by (simp add: e)
  have self: "list_ex (detaches 0 1) (fn (heap self_detacher 1))" by (simp add: e)
  from self_detach_keeps_traversal [OF e(1) e(3) att ben self]
  show ?thesis using att self by (simp add: e stays_def)
qed

lemma three_specs_eval:
  "world_inv (snd (add_all 0 three_specs sync_world))"
  "enabled (sigs (snd (add_all 0 three_specs sync_world)) 0)"
  "fn (heap (snd (add_all 0 three_specs sync_world)) 0) = []"
  "fn (heap (snd (add_all 0 three_specs sync_world)) (Suc 0)) = [HasAny 0]"
  "fn (heap (snd (add_all 0 three_specs sync_world)) 2) = [BindingDetach 2]"
  "thisArg (heap (snd (add_all 0 three_specs sync_world)) 0) = VNull"
  "thisArg (heap (snd (add_all 0 three_specs sync_world)) (Suc 0)) = VStr ''ctx''"
  "thisArg (heap (snd (add_all 0 three_specs sync_world)) 2) = VNull"
  "nalloc sync_world = 0" "length three_specs = 3"
proof -
  show "world_inv (snd (add_all 0 three_specs sync_world))"
    using demo_inv(1) [of three_specs] by (simp add: demo_def)
qed (simp_all add: three_specs_def demo_defs del: add_all.simps)

theorem add_order_is_dispatch_order_witness:
  "world_inv sync_world \<and> attached sync_world 0 []
   \<and> handlers 0 (snd (add_all 0 three_specs sync_world)) = Some [0, 1, 2]
   \<and> fst (add_all 0 three_specs sync_world) = [0, 1, 2]
   \<and> enabled (sigs (snd (add_all 0 three_specs sync_world)) 0)
   \<and> list_all (\<lambda>x. list_all (benign x [VNum 1, VStr ''a''])
                      (fn (heap (snd (add_all 0 three_specs sync_world)) x))) [0, 1, 2]
   \<and> (\<exists>w' N. (\<forall>n\<ge>N. signal_dispatch n 0 [VNum 1, VStr ''a'']
                         (snd (add_all 0 three_specs sync_world)) = Returns w')
        \<and> (\<exists>es. trace w' = trace (snd (add_all 0 three_specs sync_world)) @ es
              \<and> calls es = [Call 0 VNull [VNum 1, VStr ''a''],
                            Call 1 (VStr ''ctx'') [VNum 1, VStr ''a''],
                            Call 2 VNull [VNum 1, VStr ''a'']]))"
proof -
  note e = three_specs_eval
  let ?W = "snd (add_all 0 three_specs sync_world)"
  let ?rs = "fst (add_all 0 three_specs sync_world)"
  let ?args = "[VNum 1, VStr ''a'']"
  have inv: "world_inv sync_world" unfolding sync_world_def by (rule init_inv)
  have att: "attached sync_world 0 []" unfolding sync_world_def by (rule attached_init)
  note t = add_order_is_dispatch_order [OF inv att, of three_specs ?args]
  from t have rs: "?rs = [nalloc sync_world..<nalloc sync_world + length three_specs]" by blast
  have rs': "?rs = [0, Suc 0, 2]" unfolding rs e(9,10) by (simp add: eval_nat_numeral)
  from t have h: "handlers 0 ?W = Some ([] @ ?rs)" by blast
  have ben: "\<forall>x\<in>set ([] @ ?rs). \<forall>a\<in>set (fn (heap ?W x)). benign x ?args a"
    unfolding rs' by (simp add: e)
  from t e(2) ben have "\<exists>w' N. (\<forall>n\<ge>N. signal_dispatch n 0 ?args ?W = Returns w')
              \<and> (\<exists>es. trace w' = trace ?W @ es
                    \<and> calls es = map (\<lambda>x. Call x (thisArg (heap ?W x)) ?args) ([] @ ?rs))"
    by blast
  then show ?thesis using inv att h e(2) unfolding rs' by (simp add: e)
qed

lemma async_three_eval:
  "world_inv async_three" "attached async_three 0 [0, Suc 0, 2]"
  "enabled (sigs async_three 0)" "promises async_three = []" "trace async_three = []"
  "fn (heap async_three 0) = []" "fn (heap async_three (Suc 0)) = []"
  "fn (heap async_three 2) = [CallResolve]"
  "thisArg (heap async_three 0) = VNull" "thisArg (heap async_three (Suc 0)) = VNull"
  "thisArg (heap async_three 2) = VNull"
proof -
  show "world_inv async_three" unfolding async_three_def by (rule demo_async_inv)
  show "attached async_three 0 [0, Suc 0, 2]"
    using demo_async_inv(2) [of "[(False, [], VNull), (False, [], VNull), (False, [CallResolve], VNull)]"]
    by (simp add: async_three_def eval_nat_numeral)
qed (simp_all add: async_three_def demo_defs del: add_all.simps)

theorem async_dispatch_resolves_once_witness:
  "world_inv async_three \<and> enabled (sigs async_three 0) \<and> attached async_three 0 [0, 1, 2]
   \<and> list_all (\<lambda>x. list_all (benign x [VResolve 0, VNum 7]) (fn (heap async_three x))) [0, 1, 2]
   \<and> (\<exists>w' N. (\<forall>n\<ge>N. async_dispatch n 0 [VNum 7] async_three = Returns w')
        \<and> (\<exists>es. trace w' = trace async_three @ es
              \<and> calls es = [Call 0 VNull [VResolve 0, VNum 7], Call 1 VNull [VResolve 0, VNum 7],
                            Call 2 VNull [VResolve 0, VNum 7]]
              \<and> settlements 0 es = [Settled 0 Fulfilled])
        \<and> promises w' = [Fulfilled])"
proof -
  note e = async_three_eval
  have ben: "\<forall>x\<in>set [0, Suc 0, 2]. \<forall>a\<in>set (fn (heap async_three x)).
               benign x (VResolve (length (promises async_three)) # [VNum 7]) a"
    by (simp add: e)
  from async_dispatch_resolves_once [OF e(1) e(3) e(2) ben]
  show ?thesis using e(1,2,3) by (simp add: e called_back_def)
qed

lemma thrower_eval:
  "world_inv thrower" "attached thrower 0 [0, Suc 0, 2]"
  "enabled (sigs thrower 0)" "trace thrower = []"
  "fn (heap thrower 0) = []" "fn (heap thrower (Suc 0)) = [HasAny 0, Throw]"
  "fn (heap thrower 2) = [Add 0 [] VNull]"
  "thisArg (heap thrower 0) = VNull" "thisArg (heap thrower (Suc 0)) = VNull"
proof -
  show "world_inv thrower" unfolding thrower_def by (rule demo_inv)
  show "attached thrower 0 [0, Suc 0, 2]"
    using demo_inv(2) [of "[(False, [], VNull), (False, [HasAny 0, Throw], VNull), (False, [Add 0 [] VNull], VNull)]"]
    by (simp add: thrower_def eval_nat_numeral)
qed (simp_all add: thrower_def demo_defs del: add_all.simps)

theorem handler_exception_propagates_witness:
  "world_inv thrower \<and> enabled (sigs thrower 0) \<and> attached thrower 0 ([0] @ 1 # [2])
   \<and> list_all (\<lambda>x. list_all (benign x []) (fn (heap thrower x))) [0]
   \<and> fn (heap thrower 1) = [HasAny 0] @ Throw # []
   \<and> list_all (benign 1 []) [HasAny 0]
   \<and> (\<exists>w' N. (\<forall>n\<ge>N. signal_dispatch n 0 [] thrower = Throws HandlerError w')
        \<and> (\<exists>es. trace w' = trace thrower @ es
              \<and> calls es = [Call 0 VNull [], Call 1 VNull []]))"
proof -
  note e = thrower_eval
  have att: "attached thrower 0 ([0] @ 1 # [2])" using e(2) by simp
  have ben: "\<forall>x\<in>set [0]. \<forall>a\<in>set (fn (heap thrower x)). benign x [] a" by (simp add: e)
  have body: "fn (heap thrower 1) = [HasAny 0] @ Throw # []" by (simp add: e)
  have b1: "\<forall>a\<in>set [HasAny 0]. benign 1 [] a" by simp
  from handler_exception_propagates [OF e(1) e(3) att ben body b1]
  show ?thesis using e(1,3) att by (simp add: e)
qed

lemma sweeper_eval:
  "world_inv sweeper" "attached sweeper 0 [0, Suc 0, 2, 3]"
  "enabled (sigs sweeper 0)" "trace sweeper = []"
  "fn (heap sweeper 0) = []" "fn (heap sweeper (Suc 0)) = [DetachAll 0]"
  "fn (heap sweeper 2) = [Has 0 2, HasAny 0]" "fn (heap sweeper 3) = [BindingDetach 3]"
  "thisArg (heap sweeper 0) = VNull" "thisArg (heap sweeper (Suc 0)) = VNull"
  "thisArg (heap sweeper 2) = VNull" "thisArg (heap sweeper 3) = VNull"
proof -
  show "world_inv sweeper" unfolding sweeper_def by (rule demo_inv)
  show "attached sweeper 0 [0, Suc 0, 2, 3]"
    using demo_inv(2) [of "[(False, [], VNull), (False, [DetachAll 0], VNull),
                   (False, [Has 0 2, HasAny 0], VNull), (False, [BindingDetach 3], VNull)]"]
    by (simp add: sweeper_def eval_nat_numeral)
qed (simp_all add: sweeper_def demo_defs del: add_all.simps)

theorem detachAll_during_dispatch_witness:
  "world_inv sweeper \<and> enabled (sigs sweeper 0) \<and> attached sweeper 0 ([0] @ 1 # [2, 3])
   \<and> list_all (\<lambda>x. list_all (benign x []) (fn (heap sweeper x))) ([0] @ [2, 3])
   \<and> fn (heap sweeper 1) = [DetachAll 0]
   \<and> (\<exists>w' N. (\<forall>n\<ge>N. signal_dispatch n 0 [] sweeper = Returns w')
      \<and> (\<exists>es1 es2. trace w' = trace sweeper @ es1 @ Call 1 VNull [] # es2
            \<and> calls es1 = [Call 0 VNull []]
            \<and> calls es2 = [Call 2 VNull [], Call 3 VNull []]
            \<and> \<not> list_ex (sees_attached 0) es2)
      \<and> \<not> hasAny 0 w'
      \<and> \<not> has 0 0 w' \<and> \<not> has 0 1 w' \<and> \<not> has 0 2 w' \<and> \<not> has 0 3 w')"
proof -
  note e = sweeper_eval
  have att: "attached sweeper 0 ([0] @ 1 # [2, 3])" using e(2) by simp
  have ben: "\<forall>x\<in>set ([0] @ [2, 3]). \<forall>a\<in>set (fn (heap sweeper x)). benign x [] a"
    by (simp add: e)
  have body: "fn (heap sweeper 1) = [DetachAll 0]" by (simp add: e)
  from detachAll_during_dispatch [OF e(1) e(3) att ben body]
  show ?thesis using e(1,3) att by (simp add: e)
qed

end
